theory Spec2Isabelle
  imports Complex_Main "HOL-Library.Log_Nat" "HOL-Library.Multiset"
begin

section \<open>JavaScript numbers\<close>

text \<open>
  Every quantity, price and amount of the repository has the TypeScript type
  \<^verbatim>\<open>number\<close>: an IEEE-754 binary64 value. A finite value is modelled by the rational
  it denotes, next to the two infinities and NaN. The two zeros are identified: the
  program compares numbers with \<^verbatim>\<open><\<close>, \<^verbatim>\<open><=\<close>, \<^verbatim>\<open>>\<close> only and never divides
  by a computed value, so the sign of a zero is not observable in what follows.
\<close>

datatype number = Fin rat | PInf | NInf | NaN

text \<open>Round to the nearest integer, ties to the even one (the IEEE default mode).\<close>

definition round_even :: "rat \<Rightarrow> int" where
  "round_even x =
     (let f = \<lfloor>x\<rfloor>; r = x - of_int f
      in if r < 1/2 then f else if 1/2 < r then f + 1 else if even f then f else f + 1)"

text \<open>The binary exponent of a positive rational: \<open>2 powi ilog2 x \<le> x < 2 powi (ilog2 x + 1)\<close>.\<close>

definition ilog2 :: "rat \<Rightarrow> int" where
  "ilog2 x =
     (let k = bitlen (fst (quotient_of x)) - bitlen (snd (quotient_of x))
      in if 2 powi k \<le> x then k else k - 1)"

text \<open>
  The spacing of binary64 values around a positive \<open>x\<close>: 53 significant bits, and the
  fixed spacing \<open>2 powi (- 1074)\<close> of the subnormal range below \<open>2 powi (- 1022)\<close>.
\<close>

definition ulp :: "rat \<Rightarrow> rat" where
  "ulp x = 2 powi (max (ilog2 x) (- 1022) - 52)"

definition fl_abs :: "rat \<Rightarrow> rat" where
  "fl_abs x = of_int (round_even (x / ulp x)) * ulp x"

text \<open>
  \<open>fl x\<close> is the binary64 value of the exact result \<open>x\<close> of an operation: the nearest
  representable value, ties to even, and an infinity from \<open>2 powi 1024\<close> on.
\<close>

definition fl :: "rat \<Rightarrow> number" where
  "fl x =
     (if x = 0 then Fin 0
      else if 2 powi 1024 \<le> fl_abs \<bar>x\<bar> then (if 0 < x then PInf else NInf)
      else Fin (sgn x * fl_abs \<bar>x\<bar>))"

text \<open>A decimal literal of the source (\<^verbatim>\<open>0.1\<close>, \<^verbatim>\<open>7.2\<close>) denotes the nearest binary64 value.\<close>

definition literal :: "rat \<Rightarrow> number" where
  "literal x = fl x"

text \<open>The values a \<^verbatim>\<open>number\<close> can hold: the finite ones are those that rounding leaves alone.\<close>

fun is_number :: "number \<Rightarrow> bool" where
  "is_number (Fin x) = (fl x = Fin x)"
| "is_number _ = True"

fun is_finite :: "number \<Rightarrow> bool" where
  "is_finite (Fin x) = True"
| "is_finite _ = False"

text \<open>\<^verbatim>\<open>Number.isInteger\<close>.\<close>

fun is_integer :: "number \<Rightarrow> bool" where
  "is_integer (Fin x) = (of_int \<lfloor>x\<rfloor> = x)"
| "is_integer _ = False"

fun num_neg :: "number \<Rightarrow> number" where
  "num_neg (Fin a) = Fin (- a)"
| "num_neg PInf = NInf"
| "num_neg NInf = PInf"
| "num_neg NaN = NaN"

text \<open>\<^verbatim>\<open>a + b\<close>\<close>

fun num_add :: "number \<Rightarrow> number \<Rightarrow> number" where
  "num_add (Fin a) (Fin b) = fl (a + b)"
| "num_add NaN _ = NaN"
| "num_add _ NaN = NaN"
| "num_add PInf NInf = NaN"
| "num_add NInf PInf = NaN"
| "num_add PInf _ = PInf"
| "num_add _ PInf = PInf"
| "num_add NInf _ = NInf"
| "num_add _ NInf = NInf"

text \<open>\<^verbatim>\<open>a - b\<close>\<close>

definition num_sub :: "number \<Rightarrow> number \<Rightarrow> number" where
  "num_sub a b = num_add a (num_neg b)"

text \<open>\<^verbatim>\<open>a * b\<close>\<close>

fun num_mul :: "number \<Rightarrow> number \<Rightarrow> number" where
  "num_mul (Fin a) (Fin b) = fl (a * b)"
| "num_mul NaN _ = NaN"
| "num_mul _ NaN = NaN"
| "num_mul (Fin a) PInf = (if a = 0 then NaN else if 0 < a then PInf else NInf)"
| "num_mul (Fin a) NInf = (if a = 0 then NaN else if 0 < a then NInf else PInf)"
| "num_mul PInf (Fin b) = (if b = 0 then NaN else if 0 < b then PInf else NInf)"
| "num_mul NInf (Fin b) = (if b = 0 then NaN else if 0 < b then NInf else PInf)"
| "num_mul PInf PInf = PInf"
| "num_mul PInf NInf = NInf"
| "num_mul NInf PInf = NInf"
| "num_mul NInf NInf = PInf"

text \<open>\<^verbatim>\<open>a / 100\<close>: the only division of the program is by the literal 100.\<close>

fun div100 :: "number \<Rightarrow> number" where
  "div100 (Fin a) = fl (a / 100)"
| "div100 PInf = PInf"
| "div100 NInf = NInf"
| "div100 NaN = NaN"

text \<open>\<^verbatim>\<open>a < b\<close>, \<^verbatim>\<open>a <= b\<close>, \<^verbatim>\<open>a > b\<close>: false as soon as one side is NaN.\<close>

fun num_lt :: "number \<Rightarrow> number \<Rightarrow> bool" where
  "num_lt (Fin a) (Fin b) = (a < b)"
| "num_lt NaN _ = False"
| "num_lt _ NaN = False"
| "num_lt _ NInf = False"
| "num_lt PInf _ = False"
| "num_lt NInf _ = True"
| "num_lt _ PInf = True"

fun num_le :: "number \<Rightarrow> number \<Rightarrow> bool" where
  "num_le (Fin a) (Fin b) = (a \<le> b)"
| "num_le NaN _ = False"
| "num_le _ NaN = False"
| "num_le NInf _ = True"
| "num_le _ PInf = True"
| "num_le _ NInf = False"
| "num_le PInf _ = False"

definition num_gt :: "number \<Rightarrow> number \<Rightarrow> bool" where
  "num_gt a b = num_lt b a"

text \<open>
  \<^verbatim>\<open>Math.round(a)\<close>: the integer nearest to \<open>a\<close>, and of two equally near integers the
  one closer to plus infinity.
\<close>

fun Math_round :: "number \<Rightarrow> number" where
  "Math_round (Fin a) = Fin (of_int \<lfloor>a + 1/2\<rfloor>)"
| "Math_round PInf = PInf"
| "Math_round NInf = NInf"
| "Math_round NaN = NaN"

section \<open>Pricing: \<^verbatim>\<open>utils/pricing.ts\<close>\<close>

text \<open>\<^verbatim>\<open>throw new Error(message)\<close>\<close>

datatype error = Error string

definition calculateDiscount :: "number \<Rightarrow> number \<Rightarrow> error + number" where
  "calculateDiscount price discountPercent =
     (if num_lt discountPercent (Fin 0) \<or> num_gt discountPercent (Fin 100)
      then Inl (Error ''Discount must be between 0 and 100'')
      else Inr (div100 (Math_round
             (num_mul (num_mul price (num_sub (Fin 1) (div100 discountPercent))) (Fin 100)))))"

definition calculateTax :: "number \<Rightarrow> number \<Rightarrow> number" where
  "calculateTax price taxRate = div100 (Math_round (num_mul (num_mul price taxRate) (Fin 100)))"

text \<open>The default argument \<^verbatim>\<open>taxRate = 0.1\<close>.\<close>

definition defaultTaxRate :: number where
  "defaultTaxRate = literal (1/10)"

text \<open>An element \<^verbatim>\<open>{ price, quantity }\<close> of the argument is the pair \<open>(price, quantity)\<close>.\<close>

definition calculateTotal :: "(number \<times> number) list \<Rightarrow> number" where
  "calculateTotal items =
     div100 (Math_round
       (num_mul (foldl (\<lambda>sum item. num_add sum (num_mul (fst item) (snd item))) (Fin 0) items)
          (Fin 100)))"

section \<open>The cart: \<^verbatim>\<open>hooks/useCart.ts\<close>\<close>

text \<open>
  \<^verbatim>\<open>interface Product { id; name; price; image }\<close>. The fields \<^verbatim>\<open>id\<close> and \<^verbatim>\<open>image\<close> are
  renamed, the names being constants of HOL.
\<close>

record Product =
  product_id :: string
  name :: string
  price :: number
  product_image :: string

record CartItem =
  product :: Product
  quantity :: number

text \<open>
  The state of the hook is the array \<^verbatim>\<open>items\<close>; every operation hands an updater
  \<^verbatim>\<open>prev => ...\<close> to \<^verbatim>\<open>setItems\<close>, which is the function from the old array to the new one.
\<close>

definition addItem :: "Product \<Rightarrow> CartItem list \<Rightarrow> CartItem list" where
  "addItem p prev =
     (case find (\<lambda>i. product_id (product i) = product_id p) prev of
        Some existing \<Rightarrow>
          map (\<lambda>i. if product_id (product i) = product_id p
                    then i\<lparr>quantity := num_add (quantity i) (Fin 1)\<rparr> else i) prev
      | None \<Rightarrow> prev @ [\<lparr>product = p, quantity = Fin 1\<rparr>])"

definition removeItem :: "string \<Rightarrow> CartItem list \<Rightarrow> CartItem list" where
  "removeItem productId prev = filter (\<lambda>i. product_id (product i) \<noteq> productId) prev"

definition updateQuantity :: "string \<Rightarrow> number \<Rightarrow> CartItem list \<Rightarrow> CartItem list" where
  "updateQuantity productId qty prev =
     (if num_le qty (Fin 0)
      then filter (\<lambda>i. product_id (product i) \<noteq> productId) prev
      else map (\<lambda>i. if product_id (product i) = productId then i\<lparr>quantity := qty\<rparr> else i) prev)"

definition clearCart :: "CartItem list \<Rightarrow> CartItem list" where
  "clearCart prev = []"

text \<open>The values the hook derives from \<^verbatim>\<open>items\<close> at every render.\<close>

record Totals =
  subtotal :: number
  discountedTotal :: number
  tax :: number
  total :: number
  itemCount :: number

definition useCart :: "number \<Rightarrow> CartItem list \<Rightarrow> error + Totals" where
  "useCart discountPercent items =
     (let sub = calculateTotal (map (\<lambda>i. (price (product i), quantity i)) items)
      in case calculateDiscount sub discountPercent of
           Inl e \<Rightarrow> Inl e
         | Inr disc \<Rightarrow>
             (let tx = calculateTax disc defaultTaxRate
              in Inr \<lparr>subtotal = sub, discountedTotal = disc, tax = tx,
                      total = div100 (Math_round (num_mul (num_add disc tx) (Fin 100))),
                      itemCount = foldl (\<lambda>sum i. num_add sum (quantity i)) (Fin 0) items\<rparr>))"

text \<open>A call of one of the four operations, and a sequence of calls from a given cart.\<close>

datatype cart_op =
  AddItem Product
| RemoveItem string
| UpdateQuantity string number
| ClearCart

fun apply_op :: "CartItem list \<Rightarrow> cart_op \<Rightarrow> CartItem list" where
  "apply_op items (AddItem p) = addItem p items"
| "apply_op items (RemoveItem productId) = removeItem productId items"
| "apply_op items (UpdateQuantity productId qty) = updateQuantity productId qty items"
| "apply_op items ClearCart = clearCart items"

definition run_ops :: "cart_op list \<Rightarrow> CartItem list" where
  "run_ops ops = foldl apply_op [] ops"

text \<open>The line items other than those of one product, in their order.\<close>

definition others :: "string \<Rightarrow> CartItem list \<Rightarrow> CartItem list" where
  "others productId items = filter (\<lambda>i. product_id (product i) \<noteq> productId) items"

text \<open>
  The two products of \<^verbatim>\<open>useCart.test.ts\<close>; the image, an emoji in the source, is written
  as a word.
\<close>

definition product1 :: Product where
  "product1 = \<lparr>product_id = ''1'', name = ''Headphones'', price = Fin 80,
                product_image = ''headphones''\<rparr>"

definition product2 :: Product where
  "product2 = \<lparr>product_id = ''2'', name = ''Keyboard'', price = Fin 120,
                product_image = ''keyboard''\<rparr>"

text \<open>The invariant of the data model: one line item per product, integer quantities from 1 on.\<close>

definition cart_inv :: "CartItem list \<Rightarrow> bool" where
  "cart_inv items \<longleftrightarrow>
     distinct (map (\<lambda>i. product_id (product i)) items) \<and>
     list_all (\<lambda>i. is_integer (quantity i) \<and> num_le (Fin 1) (quantity i)) items"

text \<open>The quantities that the operations produce from integers: the integers from 1 on.\<close>

definition counted :: "number \<Rightarrow> bool" where
  "counted q \<longleftrightarrow> is_number q \<and> is_integer q \<and> num_le (Fin 1) q"

text \<open>The quantities handed to \<^verbatim>\<open>updateQuantity\<close> in a sequence of calls.\<close>

fun quantity_args :: "cart_op list \<Rightarrow> number list" where
  "quantity_args [] = []"
| "quantity_args (UpdateQuantity productId qty # ops) = qty # quantity_args ops"
| "quantity_args (_ # ops) = quantity_args ops"

text \<open>
  Line items with a price in whole cents and an integer quantity, given as the pair of
  the two integers, as arguments of \<^verbatim>\<open>calculateTotal\<close>.
\<close>

definition cent_line :: "int \<times> int \<Rightarrow> number \<times> number" where
  "cent_line l = (literal (of_int (fst l) / 100), Fin (of_int (snd l)))"

section \<open>Rounding as the specification words it\<close>



text \<open>\<^verbatim>\<open>round2(x)\<close>: \<^verbatim>\<open>Math.round(x * 100) / 100\<close>, the rounding every pricing function ends with.\<close>

definition round2 :: "number \<Rightarrow> number" where
  "round2 x = div100 (Math_round (num_mul x (Fin 100)))"

section \<open>The catalog loader: \<^verbatim>\<open>hooks/useProducts.ts\<close>\<close>

text \<open>
  The values the state variable \<^verbatim>\<open>error\<close> can hold. It is declared \<^verbatim>\<open>string | null\<close>, and
  \<^verbatim>\<open>setError\<close> is handed \<^verbatim>\<open>err.message\<close> of a rejection reason that has no type, so at run
  time it holds whatever that expression yields: \<open>Other\<close> is a value that is neither
  \<^verbatim>\<open>null\<close> nor \<^verbatim>\<open>undefined\<close> nor a string.
\<close>

datatype js_value = Null | Undefined | Str string | Other

text \<open>
  The reason a promise rejects with, as far as \<^verbatim>\<open>err.message\<close> tells reasons apart. On
  \<^verbatim>\<open>null\<close> and \<^verbatim>\<open>undefined\<close> the property access throws a \<^verbatim>\<open>TypeError\<close>; on every other reason
  it yields a value, \<^verbatim>\<open>undefined\<close> when the reason has no such property. The reason
  \<^verbatim>\<open>new Error('Network error')\<close> is \<open>Reason (Str ''Network error'')\<close>.
\<close>

datatype rejection = Nullish | Reason js_value

text \<open>
  The three state variables of the hook, and \<open>pending\<close>: the request started by the
  latest run of the effect has neither settled nor been cancelled (its \<^verbatim>\<open>cancelled\<close>
  flag is false). A request that is cancelled or has settled changes nothing any more.
\<close>

record LoaderState =
  products :: "Product list"
  loading :: bool
  error :: js_value
  pending :: bool

text \<open>
  What happens to a mounted hook: the effect runs (at mount, and again whenever \<^verbatim>\<open>api\<close>
  changes, after the cleanup of the previous run, which cancels the request of that run),
  the promise of \<^verbatim>\<open>api.fetchProducts()\<close> of the latest run resolves or rejects, the cleanup
  runs at unmount. The promise of an earlier run that settles late finds \<^verbatim>\<open>cancelled\<close> set
  and changes nothing: it is \<open>Resolved\<close> or \<open>Rejected\<close> in a state that is not \<open>pending\<close>, or
  no event at all.
\<close>

datatype loader_event =
  RunEffect
| Resolved "Product list"
| Rejected rejection
| Cleanup

definition initial :: LoaderState where
  "initial = \<lparr>products = [], loading = True, error = Null, pending = False\<rparr>"

text \<open>
  A run of the effect calls \<^verbatim>\<open>setLoading(true)\<close> and nothing else before the request. The
  handler of a rejection evaluates \<^verbatim>\<open>err.message\<close> first: on a reason that is \<^verbatim>\<open>null\<close> or
  \<^verbatim>\<open>undefined\<close> it throws there, before \<^verbatim>\<open>setError\<close> and \<^verbatim>\<open>setLoading(false)\<close> are called,
  and the state variables stay as they are.
\<close>

fun loader_step :: "LoaderState \<Rightarrow> loader_event \<Rightarrow> LoaderState" where
  "loader_step s RunEffect = s\<lparr>loading := True, pending := True\<rparr>"
| "loader_step s (Resolved data) =
     (if pending s then s\<lparr>products := data, loading := False, pending := False\<rparr> else s)"
| "loader_step s (Rejected (Reason message)) =
     (if pending s then s\<lparr>error := message, loading := False, pending := False\<rparr> else s)"
| "loader_step s (Rejected Nullish) =
     (if pending s then s\<lparr>pending := False\<rparr> else s)"
| "loader_step s Cleanup = s\<lparr>pending := False\<rparr>"

text \<open>The hook after mounting (the first run of the effect) and a sequence of events.\<close>

definition useProducts :: "loader_event list \<Rightarrow> LoaderState" where
  "useProducts events = foldl loader_step (loader_step initial RunEffect) events"

text \<open>
  The three states of the specification: loading, ready (products populated and no
  error), failed (error message populated and empty product list).
\<close>

definition is_loading :: "LoaderState \<Rightarrow> bool" where
  "is_loading s \<longleftrightarrow> loading s"

definition is_ready :: "LoaderState \<Rightarrow> bool" where
  "is_ready s \<longleftrightarrow> \<not> loading s \<and> error s = Null"

definition is_failed :: "LoaderState \<Rightarrow> bool" where
  "is_failed s \<longleftrightarrow>
     \<not> loading s \<and> (case error s of Str message \<Rightarrow> True | _ \<Rightarrow> False) \<and> products s = []"

section \<open>Properties of rounding\<close>


lemma quotient_of_pos:
  assumes "0 < x"
  shows "0 < fst (quotient_of x)" "0 < snd (quotient_of x)"
    "x = of_int (fst (quotient_of x)) / of_int (snd (quotient_of x))"
proof -
  obtain p q where pq: "quotient_of x = (p, q)" by (cases "quotient_of x")
  then have q: "0 < q" by (rule quotient_of_denom_pos)
  from pq have x: "x = of_int p / of_int q" by (rule quotient_of_div)
  with assms q have "0 < p" by (simp add: zero_less_divide_iff)
  with pq q x show "0 < fst (quotient_of x)" "0 < snd (quotient_of x)"
    "x = of_int (fst (quotient_of x)) / of_int (snd (quotient_of x))" by simp_all
qed

lemma bitlen_bounds_rat:
  assumes "0 < (n::int)"
  shows "(2::rat) powi (bitlen n - 1) \<le> of_int n" "(of_int n :: rat) < 2 powi (bitlen n)"
proof -
  from assms have b: "1 \<le> bitlen n" by (auto simp: bitlen_alt_def)
  from bitlen_bounds [OF assms] have "2 ^ nat (bitlen n - 1) \<le> n" "n < 2 ^ nat (bitlen n)" by auto
  then have "(of_int (2 ^ nat (bitlen n - 1)) :: rat) \<le> of_int n" "(of_int n :: rat) < of_int (2 ^ nat (bitlen n))"
    by (simp_all only: of_int_le_iff of_int_less_iff)
  with b show "(2::rat) powi (bitlen n - 1) \<le> of_int n" "(of_int n :: rat) < 2 powi (bitlen n)"
    by (simp_all add: power_int_def)
qed

lemma ilog2_bounds:
  assumes "0 < x"
  shows "2 powi (ilog2 x) \<le> x" "x < 2 powi (ilog2 x + 1)"
proof -
  define p where "p = fst (quotient_of x)"
  define q where "q = snd (quotient_of x)"
  define k where "k = bitlen p - bitlen q"
  from quotient_of_pos [OF assms] have p: "0 < p" and q: "0 < q" and x: "x = of_int p / of_int q"
    by (simp_all add: p_def q_def)
  note bp = bitlen_bounds_rat [OF p] and bq = bitlen_bounds_rat [OF q]
  have qr: "(0::rat) < of_int q" using q by simp
  have lo: "2 powi (k - 1) \<le> x"
  proof -
    have "(2::rat) powi (k - 1) = 2 powi (bitlen p - 1) / 2 powi (bitlen q)"
      by (simp add: k_def power_int_diff)
    also have "\<dots> \<le> of_int p / 2 powi (bitlen q)"
      using bp(1) by (simp add: divide_right_mono)
    also have "\<dots> \<le> of_int p / of_int q"
      using bq(2) p qr by (simp add: divide_left_mono)
    finally show ?thesis by (simp add: x)
  qed
  have hi: "x < 2 powi (k + 1)"
  proof -
    have "x = of_int p / of_int q" by (rule x)
    also have "\<dots> < 2 powi (bitlen p) / of_int q"
      using bp(2) qr by (simp add: divide_strict_right_mono)
    also have "\<dots> \<le> 2 powi (bitlen p) / 2 powi (bitlen q - 1)"
      using bq(1) qr by (intro divide_left_mono) (simp_all add: zero_less_mult_iff)
    also have "\<dots> = (2::rat) powi (k + 1)"
      by (simp add: k_def power_int_diff) (simp add: power_int_add power_int_diff)
    finally show ?thesis .
  qed
  have il: "ilog2 x = (if 2 powi k \<le> x then k else k - 1)"
    by (simp add: ilog2_def k_def p_def q_def Let_def)
  show "2 powi (ilog2 x) \<le> x" using lo by (simp add: il)
  show "x < 2 powi (ilog2 x + 1)" using hi by (simp add: il not_le)
qed

lemma powi2_mono: "a \<le> b \<Longrightarrow> (2::rat) powi a \<le> 2 powi b"
  by (rule power_int_increasing) simp_all

lemma powi2_less_imp: "(2::rat) powi a < 2 powi b \<Longrightarrow> a < b"
  using powi2_mono [of b a] by (cases "a < b") simp_all

lemma ilog2_unique:
  assumes "2 powi e \<le> x" "x < 2 powi (e + 1)"
  shows "ilog2 x = e"
proof -
  have "(0::rat) < 2 powi e" by simp
  with assms have x: "0 < x" by linarith
  note b = ilog2_bounds [OF x]
  from b(1) assms(2) have "(2::rat) powi (ilog2 x) < 2 powi (e + 1)" by linarith
  then have 1: "ilog2 x < e + 1" by (rule powi2_less_imp)
  from b(2) assms(1) have "(2::rat) powi e < 2 powi (ilog2 x + 1)" by linarith
  then have 2: "e < ilog2 x + 1" by (rule powi2_less_imp)
  from 1 2 show ?thesis by simp
qed



lemma round_even_of_int [simp]: "round_even (of_int n) = n"
  by (simp add: round_even_def)

lemma round_even_floor_le: "\<lfloor>x\<rfloor> \<le> round_even x"
  by (simp add: round_even_def Let_def)

lemma round_even_le_floor1: "round_even x \<le> \<lfloor>x\<rfloor> + 1"
  by (simp add: round_even_def Let_def)

lemma round_even_eq_floor: "x - of_int \<lfloor>x\<rfloor> < 1/2 \<Longrightarrow> round_even x = \<lfloor>x\<rfloor>"
  by (simp add: round_even_def Let_def)

lemma round_even_mono:
  assumes "x \<le> y"
  shows "round_even x \<le> round_even y"
proof (cases "\<lfloor>x\<rfloor> = \<lfloor>y\<rfloor>")
  case True
  with assms have "x - of_int \<lfloor>x\<rfloor> \<le> y - of_int \<lfloor>y\<rfloor>" by simp
  with True show ?thesis by (auto simp: round_even_def Let_def)
next
  case False
  with assms have "\<lfloor>x\<rfloor> < \<lfloor>y\<rfloor>" using floor_mono [of x y] by linarith
  then have "\<lfloor>x\<rfloor> + 1 \<le> \<lfloor>y\<rfloor>" by simp
  with round_even_le_floor1 [of x] round_even_floor_le [of y] show ?thesis by linarith
qed

lemma round_even_ge: "of_int n \<le> x \<Longrightarrow> n \<le> round_even x"
  using round_even_mono [of "of_int n" x] by simp

lemma round_even_le: "x \<le> of_int n \<Longrightarrow> round_even x \<le> n"
  using round_even_mono [of x "of_int n"] by simp

lemma ulp_pos [simp]: "0 < ulp x"
  by (simp add: ulp_def)

lemma ulp_nonneg [simp]: "0 \<le> ulp x"
  by (rule less_imp_le) (rule ulp_pos)

lemma powi2_add: "(2::rat) powi a * 2 powi b = 2 powi (a + b)"
  by (simp add: power_int_add)

lemma powi2_diff: "(2::rat) powi a / 2 powi b = 2 powi (a - b)"
  by (simp add: power_int_diff)

lemma two_p52: "(of_int (2 ^ 52) :: rat) = 2 powi 52"
  by (simp add: power_int_def [of _ 52])

lemma two_p53: "(of_int (2 ^ 53) :: rat) = 2 powi 53"
  by (simp add: power_int_def [of _ 53])

lemma ulp_eq:
  assumes "2 powi e \<le> x" "x < 2 powi (e + 1)"
  shows "ulp x = 2 powi (max e (- 1022) - 52)"
  using ilog2_unique [OF assms] by (simp add: ulp_def)

lemma fl_abs_eq:
  assumes "2 powi e \<le> x" "x < 2 powi (e + 1)"
  shows "fl_abs x = of_int (round_even (x / 2 powi (max e (- 1022) - 52))) * 2 powi (max e (- 1022) - 52)"
  by (simp add: fl_abs_def ulp_eq [OF assms])

lemma fl_abs_nonneg: "0 \<le> x \<Longrightarrow> 0 \<le> fl_abs x"
proof -
  assume "0 \<le> x"
  then have "of_int 0 \<le> x / ulp x" by (simp add: ulp_nonneg)
  then have "0 \<le> round_even (x / ulp x)" by (rule round_even_ge)
  then show ?thesis by (simp add: fl_abs_def)
qed

lemma fl_abs_upper:
  assumes "0 < x"
  shows "fl_abs x \<le> 2 powi (max (ilog2 x) (- 1022) + 1)"
proof -
  define e where "e = max (ilog2 x) (- 1022)"
  have u: "ulp x = 2 powi (e - 52)" by (simp add: ulp_def e_def)
  have "x < 2 powi (ilog2 x + 1)" by (rule ilog2_bounds [OF assms])
  also have "\<dots> \<le> 2 powi (e + 1)" by (rule powi2_mono) (simp add: e_def)
  finally have "x / ulp x \<le> 2 powi (e + 1) / 2 powi (e - 52)"
    by (simp add: u divide_right_mono)
  also have "\<dots> = 2 powi 53" by (simp only: powi2_diff) simp
  also have "\<dots> = of_int (2 ^ 53)" by (simp only: two_p53)
  finally have "round_even (x / ulp x) \<le> 2 ^ 53" by (rule round_even_le)
  then have "(of_int (round_even (x / ulp x)) :: rat) \<le> of_int (2 ^ 53)"
    by (simp only: of_int_le_iff)
  then have "fl_abs x \<le> of_int (2 ^ 53) * 2 powi (e - 52)"
    by (simp add: fl_abs_def u)
  also have "\<dots> = 2 powi 53 * 2 powi (e - 52)" by (simp only: two_p53)
  also have "\<dots> = 2 powi (53 + (e - 52))" by (simp only: powi2_add)
  also have "53 + (e - 52) = e + 1" by simp
  finally show ?thesis by (simp add: e_def)
qed

lemma fl_abs_lower:
  assumes "0 < x" "- 1022 \<le> ilog2 x"
  shows "2 powi (ilog2 x) \<le> fl_abs x"
proof -
  define e where "e = ilog2 x"
  have u: "ulp x = 2 powi (e - 52)" using assms(2) by (simp add: ulp_def e_def max_def)
  have "2 powi e \<le> x" unfolding e_def by (rule ilog2_bounds [OF assms(1)])
  then have "2 powi e / 2 powi (e - 52) \<le> x / ulp x"
    by (simp add: u divide_right_mono)
  moreover have "(2::rat) powi e / 2 powi (e - 52) = 2 powi 52" by (simp only: powi2_diff) simp
  moreover have "(2::rat) powi 52 = of_int (2 ^ 52)" by (simp only: two_p52)
  ultimately have "of_int (2 ^ 52) \<le> x / ulp x" by simp
  then have "2 ^ 52 \<le> round_even (x / ulp x)" by (rule round_even_ge)
  then have "(of_int (2 ^ 52) :: rat) \<le> of_int (round_even (x / ulp x))"
    by (simp only: of_int_le_iff)
  then have "of_int (2 ^ 52) * 2 powi (e - 52) \<le> fl_abs x"
    by (simp add: fl_abs_def u)
  moreover have "(of_int (2 ^ 52) :: rat) * 2 powi (e - 52) = 2 powi 52 * 2 powi (e - 52)"
    by (simp only: two_p52)
  moreover have "(2::rat) powi 52 * 2 powi (e - 52) = 2 powi e" by (simp only: powi2_add) simp
  ultimately show ?thesis by (simp add: e_def)
qed

lemma ilog2_mono:
  assumes "0 < x" "x \<le> y"
  shows "ilog2 x \<le> ilog2 y"
proof -
  from assms have y: "0 < y" by simp
  have "2 powi (ilog2 x) \<le> x" by (rule ilog2_bounds [OF assms(1)])
  also note assms(2)
  also have "y < 2 powi (ilog2 y + 1)" by (rule ilog2_bounds [OF y])
  finally have "ilog2 x < ilog2 y + 1" by (rule powi2_less_imp)
  then show ?thesis by simp
qed

lemma fl_abs_mono:
  assumes "0 < x" "x \<le> y"
  shows "fl_abs x \<le> fl_abs y"
proof -
  from assms have y: "0 < y" by simp
  define ex where "ex = max (ilog2 x) (- 1022)"
  define ey where "ey = max (ilog2 y) (- 1022)"
  have le: "ex \<le> ey" using ilog2_mono [OF assms] by (simp add: ex_def ey_def)
  show ?thesis
  proof (cases "ex = ey")
    case True
    then have u: "ulp x = ulp y" by (simp add: ulp_def ex_def ey_def)
    from assms(2) have "x / ulp y \<le> y / ulp y" by (rule divide_right_mono) simp
    then have "round_even (x / ulp y) \<le> round_even (y / ulp y)" by (rule round_even_mono)
    then have "(of_int (round_even (x / ulp y)) :: rat) \<le> of_int (round_even (y / ulp y))"
      by (simp only: of_int_le_iff)
    then show ?thesis by (simp add: fl_abs_def u)
  next
    case False
    with le have lt: "ex < ey" by simp
    then have ey: "ey = ilog2 y" "- 1022 \<le> ilog2 y" by (auto simp: ex_def ey_def max_def split: if_splits)
    have "fl_abs x \<le> 2 powi (ex + 1)" unfolding ex_def by (rule fl_abs_upper [OF assms(1)])
    also have "\<dots> \<le> 2 powi ey" by (rule powi2_mono) (use lt in simp)
    also have "\<dots> \<le> fl_abs y" unfolding ey(1) by (rule fl_abs_lower [OF y ey(2)])
    finally show ?thesis .
  qed
qed



lemma fl_abs_exact:
  assumes m: "0 < m" "m < 2 ^ 53" and k: "- 1074 \<le> k"
  shows "fl_abs (of_int m * 2 powi k) = of_int m * 2 powi k"
proof -
  define x :: rat where "x = of_int m * 2 powi k"
  define e where "e = max (ilog2 x) (- 1022)"
  have xpos: "0 < x" using m(1) by (simp add: x_def)
  have u: "ulp x = 2 powi (e - 52)" by (simp add: ulp_def e_def)
  have ek: "e - 52 \<le> k"
  proof (cases "ilog2 x \<le> - 1022")
    case True
    then show ?thesis using k by (simp add: e_def)
  next
    case False
    then have e: "e = ilog2 x" by (simp add: e_def)
    have "2 powi e \<le> x" unfolding e by (rule ilog2_bounds [OF xpos])
    also have "x < of_int (2 ^ 53) * 2 powi k"
      unfolding x_def using m(2) by (intro mult_strict_right_mono) (simp_all only: of_int_less_iff zero_less_power_int zero_less_numeral)
    also have "\<dots> = 2 powi (53 + k)" by (simp only: two_p53 powi2_add)
    finally have "e < 53 + k" by (rule powi2_less_imp)
    then show ?thesis by simp
  qed
  define j where "j = nat (k - (e - 52))"
  have "x / ulp x = of_int m * (2 powi k / 2 powi (e - 52))" by (simp only: u) (simp add: x_def)
  also have "\<dots> = of_int m * 2 powi (int j)" using ek by (simp only: powi2_diff) (simp add: j_def)
  also have "\<dots> = of_int (m * 2 ^ j)" by (simp add: power_int_def)
  finally have "round_even (x / ulp x) = m * 2 ^ j" by (simp only: round_even_of_int)
  then have "fl_abs x = of_int (m * 2 ^ j) * 2 powi (e - 52)" by (simp only: fl_abs_def u)
  also have "\<dots> = of_int m * (2 powi (int j) * 2 powi (e - 52))" by (simp add: power_int_def)
  also have "\<dots> = of_int m * 2 powi k" using ek by (simp only: powi2_add) (simp add: j_def)
  finally show ?thesis by (simp add: x_def)
qed

lemma fl_neg: "fl (- x) = num_neg (fl x)"
  by (simp add: fl_def)

lemma fl_pos:
  "0 < x \<Longrightarrow> fl x = (if 2 powi 1024 \<le> fl_abs x then PInf else Fin (fl_abs x))"
  by (simp add: fl_def)

lemma fl_exact_pos:
  assumes "0 < m" "m < 2 ^ 53" "- 1074 \<le> k" "k \<le> 971"
  shows "fl (of_int m * 2 powi k) = Fin (of_int m * 2 powi k)"
proof -
  have "of_int m * (2::rat) powi k < of_int (2 ^ 53) * 2 powi k"
    using assms(2) by (intro mult_strict_right_mono) (simp_all only: of_int_less_iff zero_less_power_int zero_less_numeral)
  also have "\<dots> = 2 powi (53 + k)" by (simp only: two_p53 powi2_add)
  also have "\<dots> \<le> 2 powi 1024" by (rule powi2_mono) (use assms(4) in simp)
  finally have "\<not> 2 powi 1024 \<le> of_int m * (2::rat) powi k" by simp
  moreover have "0 < of_int m * (2::rat) powi k" using assms(1) by simp
  ultimately show ?thesis
    by (simp only: fl_pos fl_abs_exact [OF assms(1-3)] if_False)
qed

lemma fl_exact:
  assumes "\<bar>m\<bar> < 2 ^ 53" "- 1074 \<le> k" "k \<le> 971"
  shows "fl (of_int m * 2 powi k) = Fin (of_int m * 2 powi k)"
proof -
  consider "m = 0" | "0 < m" | "m < 0" by linarith
  then show ?thesis
  proof cases
    case 1
    then show ?thesis by (simp add: fl_def)
  next
    case 2
    with assms show ?thesis by (intro fl_exact_pos) simp_all
  next
    case 3
    with assms have "fl (of_int (- m) * 2 powi k) = Fin (of_int (- m) * 2 powi k)"
      by (intro fl_exact_pos) simp_all
    then have "fl (- (of_int m * 2 powi k)) = Fin (- (of_int m * 2 powi k))" by simp
    then have "num_neg (fl (of_int m * 2 powi k)) = Fin (- (of_int m * 2 powi k))"
      by (simp only: fl_neg)
    then show ?thesis by (cases "fl (of_int m * 2 powi k)") simp_all
  qed
qed

lemma fl_of_int:
  assumes "\<bar>n\<bar> < 2 ^ 53"
  shows "fl (of_int n) = Fin (of_int n)"
  using fl_exact [OF assms, of 0] by simp

lemma num_le_neg: "num_le a b \<Longrightarrow> num_le (num_neg b) (num_neg a)"
  by (cases a; cases b) simp_all

lemma fl_mono_pos:
  assumes "0 < x" "x \<le> y"
  shows "num_le (fl x) (fl y)"
proof -
  from assms have y: "0 < y" by simp
  have "fl_abs x \<le> fl_abs y" by (rule fl_abs_mono [OF assms])
  then show ?thesis by (simp add: fl_pos assms(1) y)
qed

lemma fl_nonneg: "0 \<le> x \<Longrightarrow> num_le (Fin 0) (fl x)"
proof -
  assume "0 \<le> x"
  then consider "x = 0" | "0 < x" by linarith
  then show ?thesis
  proof cases
    case 1
    then show ?thesis by (simp add: fl_def)
  next
    case 2
    then have "0 \<le> fl_abs x" by (intro fl_abs_nonneg) simp
    with 2 show ?thesis by (simp add: fl_pos)
  qed
qed

lemma fl_nonpos: "x \<le> 0 \<Longrightarrow> num_le (fl x) (Fin 0)"
proof -
  assume "x \<le> 0"
  then have "num_le (Fin 0) (fl (- x))" by (intro fl_nonneg) simp
  then have "num_le (num_neg (fl (- x))) (num_neg (Fin 0))" by (rule num_le_neg)
  then show ?thesis by (simp add: fl_neg) (cases "fl x", simp_all)
qed

lemma num_le_trans: "num_le a b \<Longrightarrow> num_le b c \<Longrightarrow> num_le a c"
  by (cases a; cases b; cases c) simp_all

lemma fl_mono:
  assumes "x \<le> y"
  shows "num_le (fl x) (fl y)"
proof -
  consider "0 < x" | "x \<le> 0" "0 \<le> y" | "y < 0" by linarith
  then show ?thesis
  proof cases
    case 1
    then show ?thesis using assms by (rule fl_mono_pos)
  next
    case 2
    then show ?thesis by (intro num_le_trans [OF fl_nonpos fl_nonneg])
  next
    case 3
    with assms have "num_le (fl (- y)) (fl (- x))" by (intro fl_mono_pos) simp_all
    then have "num_le (num_neg (fl (- x))) (num_neg (fl (- y)))" by (rule num_le_neg)
    then show ?thesis by (simp add: fl_neg) (cases "fl x"; cases "fl y"; simp)
  qed
qed



lemma round_even_nearest:
  assumes "\<bar>y - of_int n\<bar> < 1/2"
  shows "round_even y = n"
proof (cases "of_int n \<le> y")
  case True
  with assms have "\<lfloor>y\<rfloor> = n" by (intro floor_unique) linarith+
  with assms True show ?thesis by (simp add: round_even_def Let_def)
next
  case False
  with assms have f: "\<lfloor>y\<rfloor> = n - 1" by (intro floor_unique) (simp, linarith+)
  with assms False have "\<not> y - of_int \<lfloor>y\<rfloor> < 1/2" "1/2 < y - of_int \<lfloor>y\<rfloor>" by simp_all
  with f show ?thesis by (simp add: round_even_def Let_def)
qed

lemma fl_eval:
  assumes "2 powi e \<le> x" "x < 2 powi (e + 1)" "- 1022 \<le> e" "e \<le> 1022"
  shows "fl x = Fin (of_int (round_even (x / 2 powi (e - 52))) * 2 powi (e - 52))"
proof -
  have "(0::rat) < 2 powi e" by simp
  with assms(1) have x: "0 < x" by linarith
  have il: "ilog2 x = e" by (rule ilog2_unique [OF assms(1,2)])
  have m: "max e (- 1022) = e" using assms(3) by simp
  have "fl_abs x \<le> 2 powi (max (ilog2 x) (- 1022) + 1)" by (rule fl_abs_upper [OF x])
  also have "\<dots> = 2 powi (e + 1)" by (simp only: il m)
  also have "\<dots> < 2 powi 1024" by (rule power_int_strict_increasing) (use assms(4) in simp_all)
  finally have "\<not> 2 powi 1024 \<le> fl_abs x" by simp
  then show ?thesis
    by (simp only: fl_pos [OF x] if_False fl_abs_eq [OF assms(1,2)] m)
qed

text \<open>
  A value strictly nearer to \<open>n * 2 powi (e - 52)\<close> than to any other multiple of the
  spacing rounds to it.
\<close>

lemma fl_nearest:
  assumes "2 powi e \<le> x" "x < 2 powi (e + 1)" "- 1022 \<le> e" "e \<le> 1022"
    and "\<bar>x - of_int n * 2 powi (e - 52)\<bar> * 2 < 2 powi (e - 52)"
  shows "fl x = Fin (of_int n * 2 powi (e - 52))"
proof -
  define u :: rat where "u = 2 powi (e - 52)"
  have u: "0 < u" by (simp add: u_def)
  have "x / u - of_int n = (x - of_int n * u) / u"
    using u by (simp add: field_simps)
  then have "\<bar>x / u - of_int n\<bar> = \<bar>x - of_int n * u\<bar> / u"
    using u by (simp only: abs_divide abs_of_pos)
  also have "\<dots> < 1/2" using assms(5) u by (simp add: u_def [symmetric] field_simps)
  finally have "round_even (x / u) = n" by (rule round_even_nearest)
  then show ?thesis by (simp only: fl_eval [OF assms(1-4)] u_def)
qed



lemma round_even_tie:
  assumes "\<bar>y - of_int m\<bar> = 1/2" "even m"
  shows "round_even y = m"
proof (cases "of_int m \<le> y")
  case True
  with assms(1) have y: "y = of_int m + 1/2" by linarith
  then have "\<lfloor>y\<rfloor> = m" by (intro floor_unique) simp_all
  with y assms(2) show ?thesis by (simp add: round_even_def Let_def)
next
  case False
  with assms(1) have y: "y = of_int (m - 1) + 1/2" by simp
  then have f: "\<lfloor>y\<rfloor> = m - 1" by (intro floor_unique) simp_all
  have "y - of_int (m - 1) = 1/2" using y by simp
  with f assms(2) show ?thesis by (simp add: round_even_def Let_def)
qed

text \<open>A value halfway between two multiples of the spacing rounds to the even one.\<close>

lemma fl_tie:
  assumes "2 powi e \<le> x" "x < 2 powi (e + 1)" "- 1022 \<le> e" "e \<le> 1022"
    and "\<bar>x - of_int m * 2 powi (e - 52)\<bar> * 2 = 2 powi (e - 52)" and "even m"
  shows "fl x = Fin (of_int m * 2 powi (e - 52))"
proof -
  define u :: rat where "u = 2 powi (e - 52)"
  have u: "0 < u" by (simp add: u_def)
  have "x / u - of_int m = (x - of_int m * u) / u"
    using u by (simp add: field_simps)
  then have "\<bar>x / u - of_int m\<bar> = \<bar>x - of_int m * u\<bar> / u"
    using u by (simp only: abs_divide abs_of_pos)
  also have "\<dots> = 1/2" using assms(5) u by (simp add: u_def [symmetric] field_simps)
  finally have "round_even (x / u) = m" using assms(6) by (rule round_even_tie)
  then show ?thesis by (simp only: fl_eval [OF assms(1-4)] u_def)
qed

lemma floor_half [simp]: "\<lfloor>1/2 :: rat\<rfloor> = 0"
  by (simp add: floor_eq_iff)

lemma fl_0 [simp]: "fl 0 = Fin 0"
  by (simp add: fl_def)

lemma fl_1 [simp]: "fl 1 = Fin 1"
  using fl_of_int [of 1] by simp

lemma fl_not_NaN [simp]: "fl x \<noteq> NaN"
  by (simp add: fl_def)

lemma num_le_PInf [simp]: "num_le z PInf \<longleftrightarrow> z \<noteq> NaN"
  by (cases z) simp_all

lemma num_le_NInf [simp]: "num_le NInf z \<longleftrightarrow> z \<noteq> NaN"
  by (cases z) simp_all

lemma num_le_between:
  assumes "num_le (Fin lo) z" "num_le z (Fin hi)"
  obtains z' where "z = Fin z'" "lo \<le> z'" "z' \<le> hi"
  using assms by (cases z) simp_all

lemma fl_between:
  assumes "0 \<le> x" "x \<le> 1"
  obtains y where "fl x = Fin y" "0 \<le> y" "y \<le> 1"
proof -
  have "num_le (Fin 0) (fl x)" using fl_mono [of 0 x] assms(1) by simp
  moreover have "num_le (fl x) (Fin 1)" using fl_mono [of x 1] assms(2) by simp
  ultimately show ?thesis using that by (rule num_le_between)
qed

lemma Math_round_mono: "num_le x y \<Longrightarrow> num_le (Math_round x) (Math_round y)"
  by (cases x; cases y) (simp_all add: floor_mono)

lemma div100_mono: "num_le x y \<Longrightarrow> num_le (div100 x) (div100 y)"
  by (cases x; cases y) (simp_all add: fl_mono divide_right_mono)

lemma mul100_mono: "num_le x y \<Longrightarrow> num_le (num_mul x (Fin 100)) (num_mul y (Fin 100))"
  by (cases x; cases y) (simp_all add: fl_mono)

lemma round2_mono: "num_le x y \<Longrightarrow> num_le (round2 x) (round2 y)"
  unfolding round2_def by (intro div100_mono Math_round_mono mul100_mono)

lemma fl_numeral [simp]:
  "(numeral k :: int) < 2 ^ 53 \<Longrightarrow> fl (numeral k) = Fin (numeral k)"
  using fl_of_int [of "numeral k"] by simp

text \<open>
  Two values to compare with any implementation of binary64: the literal \<^verbatim>\<open>0.1\<close> is
  \<open>3602879701896397 / 2 ^ 55\<close> (in hexadecimal \<^verbatim>\<open>0x1.999999999999ap-4\<close>), and
  \<open>2 ^ 53 + 1\<close>, halfway between two values, rounds to the even one, \<open>2 ^ 53\<close>.
\<close>

lemma literal_tenth: "literal (1 / 10) = Fin (3602879701896397 / 2 ^ 55)"
  using fl_nearest [of "- 4" "1 / 10" 7205759403792794]
  by (simp add: literal_def power_int_minus)

lemma fl_two53: "fl 9007199254740992 = Fin 9007199254740992"
  using fl_nearest [of 53 9007199254740992 4503599627370496] by simp

lemma fl_two53_plus_1: "fl 9007199254740993 = Fin 9007199254740992"
  using fl_tie [of 53 9007199254740993 4503599627370496] by simp

text \<open>A positive binary64 value is a multiple, by less than 2^53, of its spacing.\<close>

lemma double_decomp:
  assumes "0 < r" "fl r = Fin r"
  obtains N where "r = of_int N * ulp r" "0 < N" "N < 2 ^ 53"
proof -
  define N where "N = round_even (r / ulp r)"
  define e where "e = max (ilog2 r) (- 1022)"
  have u: "ulp r = 2 powi (e - 52)" by (simp add: ulp_def e_def)
  from assms have "fl_abs r = r" by (simp add: fl_pos split: if_splits)
  then have r: "r = of_int N * ulp r" by (simp add: fl_abs_def N_def)
  have "0 < of_int N * ulp r" using assms(1) r by simp
  then have N0: "0 < N" using ulp_pos [of r] by (simp add: zero_less_mult_iff not_less [symmetric] less_imp_le)
  have "r < 2 powi (ilog2 r + 1)" by (rule ilog2_bounds [OF assms(1)])
  also have "\<dots> \<le> 2 powi (e + 1)" by (rule powi2_mono) (simp add: e_def)
  also have "e + 1 = 53 + (e - 52)" by simp
  also have "2 powi (53 + (e - 52)) = of_int (2 ^ 53) * ulp r" by (simp only: two_p53 powi2_add u)
  finally have "of_int N * ulp r < of_int (2 ^ 53) * ulp r" using r by simp
  then have "(of_int N :: rat) < of_int (2 ^ 53)" by (simp only: mult_less_cancel_right_pos ulp_pos)
  then have "N < 2 ^ 53" by (simp only: of_int_less_iff)
  with r N0 show ?thesis using that by blast
qed

lemma ilog2_ge:
  assumes "2 powi k \<le> x"
  shows "k \<le> ilog2 x"
proof -
  have "(0::rat) < 2 powi k" by simp
  with assms have x: "0 < x" by linarith
  from assms ilog2_bounds(2) [OF x] have "(2::rat) powi k < 2 powi (ilog2 x + 1)" by linarith
  then have "k < ilog2 x + 1" by (rule powi2_less_imp)
  then show ?thesis by simp
qed

lemma ilog2_less:
  assumes "0 < x" "x < 2 powi k"
  shows "ilog2 x < k"
proof -
  from ilog2_bounds(1) [OF assms(1)] assms(2) have "(2::rat) powi (ilog2 x) < 2 powi k" by linarith
  then show ?thesis by (rule powi2_less_imp)
qed

lemma powi2_of_int:
  assumes "0 \<le> k"
  shows "(2::rat) powi k = of_int (2 ^ nat k)"
  using assms by (simp add: power_int_def)

lemma fl_finite_less: "fl r = Fin r \<Longrightarrow> 0 < r \<Longrightarrow> r < 2 powi 1024"
  by (simp add: fl_pos split: if_splits)

text \<open>Adding 1 to a binary64 integer from 2^53 on.\<close>

lemma add_one_large:
  assumes r: "fl r = Fin r" "2 ^ 53 \<le> r"
  shows "\<exists>r'. fl (r + 1) = Fin r' \<and> fl r' = Fin r' \<and> of_int \<lfloor>r'\<rfloor> = r' \<and> 1 \<le> r'"
proof -
  have rpos: "0 < r" using r(2) by simp
  define e where "e = ilog2 r"
  have "(2::rat) powi 53 \<le> r" using r(2) by (simp add: power_int_def [of _ 53])
  then have e53: "53 \<le> e" unfolding e_def by (rule ilog2_ge)
  have "r < 2 powi 1024" using r(1) rpos by (rule fl_finite_less)
  then have e1023: "e \<le> 1023" using ilog2_less [OF rpos, of 1024] by (simp add: e_def)
  define k where "k = e - 52"
  have k: "1 \<le> k" "k \<le> 971" using e53 e1023 by (simp_all add: k_def)
  define u :: rat where "u = 2 powi k"
  have ur: "ulp r = u" using e53 by (simp add: ulp_def e_def [symmetric] u_def k_def)
  have u2: "2 \<le> u" unfolding u_def using powi2_mono [of 1 k] k(1) by simp
  have upos: "0 < u" using u2 by simp
  obtain N where N: "r = of_int N * u" "0 < N" "N < 2 ^ 53"
    using double_decomp [OF rpos r(1)] unfolding ur by blast
  have lo: "2 powi e \<le> r + 1" using ilog2_bounds(1) [OF rpos] by (simp add: e_def)
  have "N + 1 \<le> 2 ^ 53" using N(3) by simp
  then have "(of_int (N + 1) :: rat) \<le> of_int (2 ^ 53)" by (simp only: of_int_le_iff)
  then have "of_int (N + 1) * u \<le> of_int (2 ^ 53) * u"
    using upos by (intro mult_right_mono) simp_all
  also have "\<dots> = 2 powi (53 + k)" by (simp only: two_p53 powi2_add u_def)
  also have "53 + k = e + 1" by (simp add: k_def)
  finally have top: "of_int (N + 1) * u \<le> 2 powi (e + 1)" .
  have "r + 1 < r + u" using u2 by simp
  also have "\<dots> = of_int (N + 1) * u" by (simp add: N(1) algebra_simps)
  finally have hi: "r + 1 < 2 powi (e + 1)" using top by simp
  have ulp1: "ulp (r + 1) = u"
    using ulp_eq [OF lo hi] e53 by (simp add: u_def k_def)
  define d :: rat where "d = 1 / u"
  have d: "0 < d" "d \<le> 1/2" using u2 upos by (simp_all add: d_def field_simps)
  have q: "(r + 1) / u = of_int N + d" using upos by (simp add: N(1) d_def field_simps)
  define m where "m = round_even ((r + 1) / u)"
  have fN: "\<lfloor>of_int N + d\<rfloor> = N" using d by (intro floor_unique) simp_all
  have m_lo: "N \<le> m" using round_even_floor_le [of "of_int N + d"] by (simp add: m_def q fN)
  have m_hi: "m \<le> N + 1" using round_even_le_floor1 [of "of_int N + d"] by (simp add: m_def q fN)
  have fa: "fl_abs (r + 1) = of_int m * u" by (simp add: fl_abs_def ulp1 m_def)
  have tie: "u = 2" if "m \<noteq> N"
  proof (rule ccontr)
    assume "u \<noteq> 2"
    with u2 have "2 < u" by simp
    then have "d < 1/2" using upos by (simp add: d_def field_simps)
    then have "of_int N + d - of_int \<lfloor>of_int N + d\<rfloor> < 1/2" by (simp add: fN)
    then have "round_even (of_int N + d) = \<lfloor>of_int N + d\<rfloor>" by (rule round_even_eq_floor)
    with that show False by (simp add: m_def q fN)
  qed
  have mpos: "0 < m" using N(2) m_lo by simp
  show ?thesis
  proof (cases "m = N")
    case True
    then have fa': "fl_abs (r + 1) = r" by (simp only: fa N(1) [symmetric])
    have "0 < r + 1" using rpos by simp
    then have "fl (r + 1) = Fin r"
      using fl_finite_less [OF r(1) rpos] by (simp add: fl_pos fa')
    moreover have "of_int \<lfloor>r\<rfloor> = r"
      unfolding N(1) u_def using k(1) by (simp add: powi2_of_int flip: of_int_mult)
    moreover have "1 \<le> r" using r(2) by simp
    ultimately show ?thesis using r(1) by blast
  next
    case False
    then have u: "u = 2" by (rule tie)
    from False m_lo m_hi have m: "m = N + 1" by simp
    have k1: "k = 1"
    proof -
      have "(2::rat) powi k = 2 powi 1" using u by (simp add: u_def)
      then have "\<not> (2::rat) powi k < 2 powi 1" "\<not> (2::rat) powi 1 < 2 powi k" by simp_all
      then have "\<not> k < 1" "\<not> 1 < k"
        using power_int_strict_increasing [of k 1 "2::rat"]
          power_int_strict_increasing [of 1 k "2::rat"] by auto
      then show ?thesis by simp
    qed
    define r' :: rat where "r' = of_int m * 2"
    have fa': "fl_abs (r + 1) = r'" by (simp add: fa u r'_def)
    have "m \<le> 2 ^ 53" using m N(3) by simp
    then have "(of_int m :: rat) \<le> of_int (2 ^ 53)" by (simp only: of_int_le_iff)
    then have "r' \<le> of_int (2 ^ 53) * 2"
      unfolding r'_def by (intro mult_right_mono) simp_all
    also have "\<dots> < 2 powi 1024" by (simp add: power_int_def [of _ 1024])
    finally have fin: "\<not> 2 powi 1024 \<le> r'" by simp
    have "0 < r + 1" using rpos by simp
    then have 1: "fl (r + 1) = Fin r'" using fin by (simp add: fl_pos fa')
    have 2: "fl r' = Fin r'"
    proof (cases "m < 2 ^ 53")
      case True
      then show ?thesis
        using fl_exact_pos [of m 1] mpos by (simp add: r'_def)
    next
      case False
      with m N(3) have "m = 2 ^ 53" by simp
      then have "r' = of_int 1 * 2 powi 54" by (simp add: r'_def power_int_def [of _ 54])
      then show ?thesis using fl_exact_pos [of 1 54] by simp
    qed
    have 3: "of_int \<lfloor>r'\<rfloor> = r'" by (simp add: r'_def flip: of_int_mult)
    have 4: "1 \<le> r'" using mpos by (simp add: r'_def)
    from 1 2 3 4 show ?thesis by blast
  qed
qed


lemma add_one_integer:
  assumes "fl r = Fin r" "of_int \<lfloor>r\<rfloor> = r" "1 \<le> r"
  shows "\<exists>r'. fl (r + 1) = Fin r' \<and> fl r' = Fin r' \<and> of_int \<lfloor>r'\<rfloor> = r' \<and> 1 \<le> r'"
proof (cases "2 ^ 53 \<le> r")
  case True
  with assms(1) show ?thesis by (rule add_one_large)
next
  case False
  define n where "n = \<lfloor>r\<rfloor>"
  have rn: "r = of_int n" unfolding n_def by (rule assms(2) [symmetric])
  from False have "(of_int n :: rat) < of_int (2 ^ 53)" by (simp add: rn)
  then have n: "n < 2 ^ 53" by (simp only: of_int_less_iff)
  from assms(3) have n1: "1 \<le> n" by (simp add: rn)
  have "fl (of_int (n + 1)) = Fin (of_int (n + 1))"
  proof (cases "n + 1 < 2 ^ 53")
    case True
    with n1 show ?thesis by (intro fl_of_int) simp
  next
    case False
    with n have "n + 1 = 2 ^ 53" by simp
    then show ?thesis by (simp add: fl_two53)
  qed
  then have "fl (r + 1) = Fin (r + 1)" by (simp add: rn)
  moreover have "of_int \<lfloor>r + 1\<rfloor> = r + 1" by (simp add: rn)
  moreover have "1 \<le> r + 1" using assms(3) by simp
  ultimately show ?thesis by blast
qed

lemma round_even_error: "\<bar>of_int (round_even y) - y\<bar> \<le> 1/2"
proof -
  define r where "r = y - of_int \<lfloor>y\<rfloor>"
  have r: "0 \<le> r" "r < 1" unfolding r_def by linarith+
  have re: "round_even y = (if r < 1/2 then \<lfloor>y\<rfloor> else if 1/2 < r then \<lfloor>y\<rfloor> + 1
      else if even \<lfloor>y\<rfloor> then \<lfloor>y\<rfloor> else \<lfloor>y\<rfloor> + 1)"
    by (simp only: round_even_def Let_def r_def)
  consider "r < 1/2" | "1/2 < r" | "r = 1/2" by linarith
  then have "round_even y = \<lfloor>y\<rfloor> \<and> r \<le> 1/2 \<or> round_even y = \<lfloor>y\<rfloor> + 1 \<and> 1/2 \<le> r"
    by cases (simp_all add: re)
  then show ?thesis
  proof
    assume "round_even y = \<lfloor>y\<rfloor> \<and> r \<le> 1/2"
    moreover have "of_int \<lfloor>y\<rfloor> - y = - r" by (simp add: r_def)
    ultimately show ?thesis using r by simp
  next
    assume "round_even y = \<lfloor>y\<rfloor> + 1 \<and> 1/2 \<le> r"
    moreover have "of_int (\<lfloor>y\<rfloor> + 1) - y = 1 - r" by (simp add: r_def)
    ultimately show ?thesis using r by simp
  qed
qed

text \<open>The relative error of rounding in the normal range is at most 2^-53.\<close>

lemma fl_error:
  assumes "2 powi (- 1022) \<le> x" "x < 2 powi 1023"
  obtains y where "fl x = Fin y" "\<bar>y - x\<bar> \<le> x / 2 ^ 53"
proof -
  have "(0::rat) < 2 powi (- 1022)" by simp
  with assms(1) have x: "0 < x" by linarith
  define e where "e = ilog2 x"
  have e_lo: "- 1022 \<le> e" unfolding e_def using assms(1) by (rule ilog2_ge)
  have e_hi: "e < 1023" unfolding e_def using x assms(2) by (rule ilog2_less)
  define u :: rat where "u = 2 powi (e - 52)"
  have u: "0 < u" by (simp add: u_def)
  have ux: "ulp x = u" using e_lo by (simp add: ulp_def e_def [symmetric] u_def)
  define N where "N = round_even (x / u)"
  have fa: "fl_abs x = of_int N * u" by (simp add: fl_abs_def ux N_def)
  have "fl_abs x \<le> 2 powi (max (ilog2 x) (- 1022) + 1)" by (rule fl_abs_upper [OF x])
  also have "\<dots> = 2 powi (e + 1)" using e_lo by (simp add: e_def)
  also have "\<dots> < 2 powi 1024" by (rule power_int_strict_increasing) (use e_hi in simp_all)
  finally have "\<not> 2 powi 1024 \<le> fl_abs x" by simp
  then have 1: "fl x = Fin (of_int N * u)" using x by (simp add: fl_pos fa)
  have "of_int N * u - x = (of_int N - x / u) * u" using u by (simp add: field_simps)
  then have "\<bar>of_int N * u - x\<bar> = \<bar>of_int N - x / u\<bar> * u"
    using u by (simp only: abs_mult abs_of_pos)
  also have "\<dots> \<le> 1/2 * u"
    using round_even_error [of "x / u"] u by (intro mult_right_mono) (simp_all add: N_def)
  finally have a: "\<bar>of_int N * u - x\<bar> \<le> 1/2 * u" .
  have "u = 2 powi e / 2 powi 52" by (simp only: u_def powi2_diff)
  then have b: "1/2 * u = 2 powi e / 2 ^ 53" by (simp add: power_int_def [of _ 52])
  have "(2::rat) powi e / 2 ^ 53 \<le> x / 2 ^ 53"
    using ilog2_bounds(1) [OF x] by (intro divide_right_mono) (simp_all add: e_def)
  with a b have 2: "\<bar>of_int N * u - x\<bar> \<le> x / 2 ^ 53" by simp
  from 1 2 show ?thesis by (rule that)
qed

lemma fl_exact_pos_gen:
  assumes "0 < m" "m < 2 ^ 53" "- 1074 \<le> k" "of_int m * 2 powi k < (2::rat) powi 1024"
  shows "fl (of_int m * 2 powi k) = Fin (of_int m * 2 powi k)"
proof -
  have "0 < of_int m * (2::rat) powi k" using assms(1) by simp
  moreover have "\<not> 2 powi 1024 \<le> of_int m * (2::rat) powi k" using assms(4) by simp
  ultimately show ?thesis
    by (simp only: fl_pos fl_abs_exact [OF assms(1-3)] if_False)
qed

text \<open>Rounding is idempotent: its finite results are numbers.\<close>

lemma fl_idem_pos:
  assumes "0 < x" "fl x = Fin y"
  shows "fl y = Fin y"
proof -
  define e where "e = max (ilog2 x) (- 1022)"
  define k where "k = e - 52"
  define N where "N = round_even (x / ulp x)"
  have u: "ulp x = 2 powi k" by (simp add: ulp_def e_def k_def)
  have k: "- 1074 \<le> k" by (simp add: k_def e_def)
  from assms have fin: "fl_abs x < 2 powi 1024" and y: "y = fl_abs x"
    by (simp_all add: fl_pos split: if_splits)
  have yN: "y = of_int N * 2 powi k" by (simp add: y fl_abs_def N_def u)
  have "0 \<le> y" unfolding y using assms(1) by (intro fl_abs_nonneg) simp
  then have "of_int 0 * (2::rat) powi k \<le> of_int N * 2 powi k" by (simp add: yN)
  then have "(of_int 0 :: rat) \<le> of_int N"
    by (simp only: mult_le_cancel_right_pos zero_less_power_int zero_less_numeral)
  then have N0: "0 \<le> N" by (simp only: of_int_le_iff)
  have "y \<le> 2 powi (e + 1)" unfolding y e_def by (rule fl_abs_upper [OF assms(1)])
  also have "e + 1 = 53 + k" by (simp add: k_def)
  also have "(2::rat) powi (53 + k) = of_int (2 ^ 53) * 2 powi k" by (simp only: two_p53 powi2_add)
  finally have "of_int N * (2::rat) powi k \<le> of_int (2 ^ 53) * 2 powi k" by (simp only: yN)
  then have "(of_int N :: rat) \<le> of_int (2 ^ 53)" by (simp only: mult_le_cancel_right_pos zero_less_power_int zero_less_numeral)
  then have N53: "N \<le> 2 ^ 53" by (simp only: of_int_le_iff)
  consider "N = 0" | "0 < N" "N < 2 ^ 53" | "N = 2 ^ 53" using N0 N53 by linarith
  then show ?thesis
  proof cases
    case 1
    then show ?thesis by (simp add: yN)
  next
    case 2
    then show ?thesis
      unfolding yN using k fin [unfolded y [symmetric] yN] by (intro fl_exact_pos_gen)
  next
    case 3
    have "y = of_int (2 ^ 53) * 2 powi k" by (simp only: yN 3)
    also have "\<dots> = 2 powi (53 + k)" by (simp only: two_p53 powi2_add)
    finally have y2: "y = of_int 1 * 2 powi (53 + k)" by simp
    have "fl (of_int 1 * 2 powi (53 + k)) = Fin (of_int 1 * 2 powi (53 + k))"
      using k fin [unfolded y [symmetric] y2] by (intro fl_exact_pos_gen) simp_all
    then show ?thesis by (simp only: y2)
  qed
qed

lemma fl_idem:
  assumes "fl x = Fin y"
  shows "fl y = Fin y"
proof -
  consider "x = 0" | "0 < x" | "x < 0" by linarith
  then show ?thesis
  proof cases
    case 1
    with assms show ?thesis by simp
  next
    case 2
    then show ?thesis using assms by (rule fl_idem_pos)
  next
    case 3
    from assms have "fl (- x) = Fin (- y)" by (simp add: fl_neg)
    with 3 have "fl (- y) = Fin (- y)" by (intro fl_idem_pos [of "- x"]) simp_all
    then have "num_neg (fl y) = Fin (- y)" by (simp only: fl_neg)
    then show ?thesis by (cases "fl y") simp_all
  qed
qed

lemma of_int_bounds_50:
  assumes "1 \<le> n" "n < 2 ^ 50"
  shows "1 \<le> (of_int n :: rat)" "(of_int n :: rat) < 2 ^ 50"
proof -
  from assms(1) have "(of_int 1 :: rat) \<le> of_int n" by (simp only: of_int_le_iff)
  then show "1 \<le> (of_int n :: rat)" by simp
  from assms(2) have "(of_int n :: rat) < of_int (2 ^ 50)" by (simp only: of_int_less_iff)
  then show "(of_int n :: rat) < 2 ^ 50" by simp
qed

lemma rel_error_D:
  assumes "\<bar>a - x\<bar> \<le> x / 2 ^ 53"
  shows "a - x \<le> x / 9007199254740992" "x - a \<le> (x::rat) / 9007199254740992"
proof -
  have p: "(2::rat) ^ 53 = 9007199254740992" by simp
  from abs_le_D1 [OF assms] show "a - x \<le> x / 9007199254740992" by (simp only: p)
  from abs_le_D2 [OF assms] have "- (a - x) \<le> x / 9007199254740992" by (simp only: p)
  then show "x - a \<le> x / 9007199254740992" by simp
qed

lemma rel_error_bounds:
  assumes "\<bar>a - x\<bar> \<le> x / 2 ^ 53" "0 \<le> (x::rat)"
  shows "x / 2 \<le> a" "a \<le> 2 * x"
  using rel_error_D [OF assms(1)] assms(2) by linarith+

lemma cents_normal:
  assumes "1 \<le> n" "n < 2 ^ 50"
  shows "2 powi (- 1022) \<le> (of_int n :: rat) / 100" "(of_int n :: rat) / 100 < 2 powi 1023"
proof -
  note n = of_int_bounds_50 [OF assms]
  have "(2::rat) powi (- 1022) \<le> 2 powi (- 7)" by (rule powi2_mono) simp
  also have "\<dots> \<le> 1 / 100" by (simp add: power_int_minus)
  also have "\<dots> \<le> of_int n / 100" using n(1) by simp
  finally show "2 powi (- 1022) \<le> (of_int n :: rat) / 100" .
  have "(of_int n :: rat) / 100 < 2 ^ 50" using n by simp
  also have "\<dots> = 2 powi 50" by (simp add: power_int_def [of _ 50])
  also have "\<dots> \<le> 2 powi 1023" by (rule powi2_mono) simp
  finally show "(of_int n :: rat) / 100 < 2 powi 1023" .
qed

lemma fl_128: "fl (1 / 128) = Fin (1 / 128)"
  using fl_nearest [of "- 7" "1 / 128" 4503599627370496] by (simp add: power_int_minus)

lemma fl_ge_128:
  assumes "1 / 128 \<le> x" "fl x = Fin y"
  shows "1 / 128 \<le> y"
  using fl_mono [OF assms(1)] by (simp add: fl_128 assms(2))

lemma normal_range:
  assumes "1 / 128 \<le> x" "x < 2 ^ 60"
  shows "2 powi (- 1022) \<le> (x::rat)" "x < 2 powi 1023"
proof -
  have "(2::rat) powi (- 1022) \<le> 2 powi (- 7)" by (rule powi2_mono) simp
  also have "\<dots> = 1 / 128" by (simp add: power_int_minus)
  finally show "2 powi (- 1022) \<le> x" using assms(1) by simp
  have "(2::rat) ^ 60 = 2 powi 60" by (simp add: power_int_def [of _ 60])
  also have "\<dots> \<le> 2 powi 1023" by (rule powi2_mono) simp
  finally show "x < 2 powi 1023" using assms(2) by simp
qed

section \<open>The cart operations\<close>

lemma find_None_iff_id:
  "find (\<lambda>i. product_id (product i) = k) items = None
     \<longleftrightarrow> k \<notin> set (map (\<lambda>i. product_id (product i)) items)"
  by (induction items) auto

lemma num_gt_not_le: "num_gt q (Fin 0) \<Longrightarrow> \<not> num_le q (Fin 0)"
  by (cases q) (auto simp: num_gt_def)

lemma others_removeItem: "others k (removeItem k items) = others k items"
  by (simp add: others_def removeItem_def)

lemma others_map_update:
  "others k (map (\<lambda>i. if product_id (product i) = k then i\<lparr>quantity := qty\<rparr> else i) items)
     = others k items"
  by (induction items) (simp_all add: others_def)

text \<open>
  C6. \<^verbatim>\<open>updateQuantity(productId, quantity)\<close>, in every cart: with \<open>quantity \<le> 0\<close> the
  result is that of \<^verbatim>\<open>removeItem(productId)\<close>; with \<open>quantity > 0\<close> the cart keeps its
  length and its products, the quantity of each line of \<open>productId\<close> is \<open>quantity\<close> itself
  and every other quantity is as before; with \<open>quantity > 0\<close> and no line of \<open>productId\<close>
  the cart is unchanged. No case raises an error: the result is always a cart.
\<close>

theorem updateQuantity_spec:
  "(num_le qty (Fin 0) \<longrightarrow> updateQuantity k qty items = removeItem k items) \<and>
   (num_gt qty (Fin 0) \<longrightarrow>
      length (updateQuantity k qty items) = length items \<and>
      (\<forall>n < length items.
         product (updateQuantity k qty items ! n) = product (items ! n) \<and>
         quantity (updateQuantity k qty items ! n) =
           (if product_id (product (items ! n)) = k then qty else quantity (items ! n)))) \<and>
   (num_gt qty (Fin 0) \<and> k \<notin> set (map (\<lambda>i. product_id (product i)) items) \<longrightarrow>
      updateQuantity k qty items = items)"
proof (intro conjI impI)
  assume "num_le qty (Fin 0)"
  then show "updateQuantity k qty items = removeItem k items"
    by (simp add: updateQuantity_def removeItem_def)
next
  assume "num_gt qty (Fin 0)"
  then have "\<not> num_le qty (Fin 0)" by (rule num_gt_not_le)
  then show "length (updateQuantity k qty items) = length items"
    and "\<forall>n < length items.
         product (updateQuantity k qty items ! n) = product (items ! n) \<and>
         quantity (updateQuantity k qty items ! n) =
           (if product_id (product (items ! n)) = k then qty else quantity (items ! n))"
    by (simp_all add: updateQuantity_def)
next
  assume "num_gt qty (Fin 0) \<and> k \<notin> set (map (\<lambda>i. product_id (product i)) items)"
  then have "\<not> num_le qty (Fin 0)" and "\<forall>i \<in> set items. product_id (product i) \<noteq> k"
    by (auto dest: num_gt_not_le)
  then show "updateQuantity k qty items = items"
    by (simp add: updateQuantity_def map_idI)
qed

theorem updateQuantity_spec_witness:
  "num_le (Fin 0) (Fin 0) \<and>
   updateQuantity ''1'' (Fin 0) [\<lparr>product = product1, quantity = Fin 1\<rparr>]
     = removeItem ''1'' [\<lparr>product = product1, quantity = Fin 1\<rparr>] \<and>
   num_gt (Fin 5) (Fin 0) \<and>
   quantity (updateQuantity ''1'' (Fin 5) [\<lparr>product = product1, quantity = Fin 1\<rparr>] ! 0) = Fin 5 \<and>
   ''2'' \<notin> set (map (\<lambda>i. product_id (product i)) [\<lparr>product = product1, quantity = Fin 1\<rparr>]) \<and>
   updateQuantity ''2'' (Fin 5) [\<lparr>product = product1, quantity = Fin 1\<rparr>]
     = [\<lparr>product = product1, quantity = Fin 1\<rparr>]"
  using updateQuantity_spec [of "Fin 0" "''1''" "[\<lparr>product = product1, quantity = Fin 1\<rparr>]"]
    updateQuantity_spec [of "Fin 5" "''1''" "[\<lparr>product = product1, quantity = Fin 1\<rparr>]"]
    updateQuantity_spec [of "Fin 5" "''2''" "[\<lparr>product = product1, quantity = Fin 1\<rparr>]"]
  by (simp add: num_gt_def product1_def)

text \<open>
  C10. In every cart and for every product identifier \<open>p\<close>, \<^verbatim>\<open>removeItem(p)\<close> and
  \<^verbatim>\<open>updateQuantity(p, q)\<close> with \<open>q > 0\<close> leave the sequence of the line items of the other
  products as it was: the same items, product and quantity, in the same order.
\<close>

theorem frame_others:
  "others p (removeItem p items) = others p items \<and>
   (num_gt q (Fin 0) \<longrightarrow> others p (updateQuantity p q items) = others p items)"
  using others_removeItem [of p items] others_map_update [of p q items]
  by (auto simp: updateQuantity_def dest: num_gt_not_le)

theorem frame_others_witness:
  "num_gt (Fin 5) (Fin 0) \<and>
   others ''1'' (updateQuantity ''1'' (Fin 5)
       [\<lparr>product = product1, quantity = Fin 1\<rparr>, \<lparr>product = product2, quantity = Fin 3\<rparr>])
     = [\<lparr>product = product2, quantity = Fin 3\<rparr>]"
  using frame_others [of "''1''" "[\<lparr>product = product1, quantity = Fin 1\<rparr>, \<lparr>product = product2, quantity = Fin 3\<rparr>]" "Fin 5"]
  by (simp add: num_gt_def others_def product1_def product2_def)

lemma find_Some_iff_id:
  "(\<exists>e. find (\<lambda>i. product_id (product i) = k) items = Some e)
     \<longleftrightarrow> k \<in> set (map (\<lambda>i. product_id (product i)) items)"
  using find_None_iff_id [of k items]
  by (cases "find (\<lambda>i. product_id (product i) = k) items") auto

lemma addItem_existing:
  assumes "product_id p \<in> set (map (\<lambda>i. product_id (product i)) items)"
  shows "addItem p items =
    map (\<lambda>i. if product_id (product i) = product_id p
              then i\<lparr>quantity := num_add (quantity i) (Fin 1)\<rparr> else i) items"
proof -
  from assms obtain e where "find (\<lambda>i. product_id (product i) = product_id p) items = Some e"
    using find_Some_iff_id [of "product_id p" items] by blast
  then show ?thesis by (simp add: addItem_def)
qed

lemma addItem_new:
  assumes "product_id p \<notin> set (map (\<lambda>i. product_id (product i)) items)"
  shows "addItem p items = items @ [\<lparr>product = p, quantity = Fin 1\<rparr>]"
  using assms find_None_iff_id [of "product_id p" items] by (simp add: addItem_def)

lemma add_one_exact:
  assumes "0 \<le> n" "n < 2 ^ 53 - 1"
  shows "num_add (Fin (of_int n)) (Fin 1) = Fin (of_int (n + 1))"
proof -
  from assms have "\<bar>n + 1\<bar> < 2 ^ 53" by simp
  then have "fl (of_int (n + 1)) = Fin (of_int (n + 1))" by (rule fl_of_int)
  then show ?thesis by (simp add: add.commute)
qed

lemma addItem_twice: "addItem p (addItem p []) = [\<lparr>product = p, quantity = Fin 2\<rparr>]"
  by (simp add: addItem_def)

text \<open>
  C7, as the code has it. \<^verbatim>\<open>addItem(product)\<close>, in every cart: when a line item of
  \<open>product.id\<close> exists, the quantity \<open>q\<close> of each such line becomes the number \<open>q + 1\<close> of
  binary64 addition, which is \<open>q + 1\<close> itself for every integer \<open>q\<close> with
  \<open>0 \<le> q < 2 ^ 53 - 1\<close>, and the cart keeps its lines and their order; otherwise a line
  item of quantity 1 is appended at the end, the lines before it as they were. Adding a
  product twice to the empty cart gives one line item of quantity 2.
\<close>

theorem addItem_spec:
  "(product_id p \<in> set (map (\<lambda>i. product_id (product i)) items) \<longrightarrow>
      addItem p items =
        map (\<lambda>i. if product_id (product i) = product_id p
                  then i\<lparr>quantity := num_add (quantity i) (Fin 1)\<rparr> else i) items) \<and>
   (0 \<le> n \<and> n < 2 ^ 53 - 1 \<longrightarrow> num_add (Fin (of_int n)) (Fin 1) = Fin (of_int (n + 1))) \<and>
   (product_id p \<notin> set (map (\<lambda>i. product_id (product i)) items) \<longrightarrow>
      addItem p items = items @ [\<lparr>product = p, quantity = Fin 1\<rparr>]) \<and>
   addItem p (addItem p []) = [\<lparr>product = p, quantity = Fin 2\<rparr>]"
  using addItem_existing [of p items] addItem_new [of p items] add_one_exact [of n]
    addItem_twice [of p]
  by blast

theorem addItem_spec_witness:
  "product_id product1 \<in> set (map (\<lambda>i. product_id (product i)) [\<lparr>product = product1, quantity = Fin 4\<rparr>]) \<and>
   addItem product1 [\<lparr>product = product1, quantity = Fin 4\<rparr>]
     = [\<lparr>product = product1, quantity = Fin 5\<rparr>] \<and>
   (0::int) \<le> 4 \<and> (4::int) < 2 ^ 53 - 1 \<and>
   product_id product2 \<notin> set (map (\<lambda>i. product_id (product i)) [\<lparr>product = product1, quantity = Fin 4\<rparr>]) \<and>
   addItem product2 [\<lparr>product = product1, quantity = Fin 4\<rparr>]
     = [\<lparr>product = product1, quantity = Fin 4\<rparr>, \<lparr>product = product2, quantity = Fin 1\<rparr>]"
  using addItem_spec [of product1 "[\<lparr>product = product1, quantity = Fin 4\<rparr>]" 4]
    addItem_spec [of product2 "[\<lparr>product = product1, quantity = Fin 4\<rparr>]" 4]
  by (simp add: product1_def product2_def)

text \<open>
  C7 as the specification words it fails for a line item of quantity \<open>2 ^ 53\<close> (a cart
  that \<^verbatim>\<open>updateQuantity(id, 2 ** 53)\<close> produces): \<open>2 ^ 53 + 1\<close> is no binary64 value, and
  the sum is \<open>2 ^ 53\<close> again.
\<close>

theorem addItem_increment_counterexample:
  "addItem product1 [\<lparr>product = product1, quantity = Fin (2 ^ 53)\<rparr>]
     = [\<lparr>product = product1, quantity = Fin (2 ^ 53)\<rparr>] \<and>
   Fin (2 ^ 53) \<noteq> Fin (2 ^ 53 + 1)"
  by (simp add: addItem_def fl_two53_plus_1)


lemma ids_addItem_existing:
  "map (\<lambda>i. product_id (product i))
     (map (\<lambda>i. if product_id (product i) = k then i\<lparr>quantity := q i\<rparr> else i) items)
   = map (\<lambda>i. product_id (product i)) items"
  by (induction items) simp_all

lemma distinct_addItem:
  assumes "distinct (map (\<lambda>i. product_id (product i)) items)"
  shows "distinct (map (\<lambda>i. product_id (product i)) (addItem p items))"
proof (cases "product_id p \<in> set (map (\<lambda>i. product_id (product i)) items)")
  case True
  then show ?thesis
    using assms by (simp only: addItem_existing ids_addItem_existing)
next
  case False
  then show ?thesis
    using assms by (simp add: addItem_new)
qed

lemma distinct_apply_op:
  assumes "distinct (map (\<lambda>i. product_id (product i)) items)"
  shows "distinct (map (\<lambda>i. product_id (product i)) (apply_op items op))"
proof (cases op)
  case (AddItem p)
  then show ?thesis using assms by (simp add: distinct_addItem)
next
  case (RemoveItem k)
  then show ?thesis using assms by (simp add: removeItem_def distinct_map_filter)
next
  case (UpdateQuantity k q)
  show ?thesis
  proof (cases "num_le q (Fin 0)")
    case True
    then show ?thesis
      using assms by (simp add: UpdateQuantity updateQuantity_def distinct_map_filter)
  next
    case False
    then have "apply_op items op =
        map (\<lambda>i. if product_id (product i) = k then i\<lparr>quantity := q\<rparr> else i) items"
      by (simp add: UpdateQuantity updateQuantity_def)
    then show ?thesis
      using assms by (simp only: ids_addItem_existing)
  qed
next
  case ClearCart
  then show ?thesis by (simp add: clearCart_def)
qed

lemma run_ops_snoc: "run_ops (ops @ [op]) = apply_op (run_ops ops) op"
  by (simp add: run_ops_def)

lemma distinct_run_ops: "distinct (map (\<lambda>i. product_id (product i)) (run_ops ops))"
proof (induction ops rule: rev_induct)
  case Nil
  show ?case by (simp add: run_ops_def)
next
  case (snoc op ops)
  then show ?case by (simp only: run_ops_snoc distinct_apply_op)
qed

lemma counted_one: "counted (Fin 1)"
  by (simp add: counted_def)

lemma counted_add_one:
  assumes "counted q"
  shows "counted (num_add q (Fin 1))"
proof -
  from assms obtain r where r: "q = Fin r" "fl r = Fin r" "of_int \<lfloor>r\<rfloor> = r" "1 \<le> r"
    by (cases q) (simp_all add: counted_def)
  from add_one_integer [OF r(2-4)] obtain r'
    where "fl (r + 1) = Fin r'" "fl r' = Fin r'" "of_int \<lfloor>r'\<rfloor> = r'" "1 \<le> r'" by blast
  then show ?thesis by (simp add: r(1) counted_def)
qed

lemma counted_arg:
  assumes "is_number q \<and> is_integer q" "\<not> num_le q (Fin 0)"
  shows "counted q"
proof -
  from assms obtain x where x: "q = Fin x" "fl x = Fin x" "of_int \<lfloor>x\<rfloor> = x" "0 < x"
    by (cases q) auto
  define n where "n = \<lfloor>x\<rfloor>"
  have xn: "x = of_int n" unfolding n_def by (rule x(3) [symmetric])
  from x(4) have "0 < n" by (simp add: xn)
  then have "1 \<le> x" by (simp add: xn)
  with x(1-3) show ?thesis by (simp add: counted_def)
qed

lemma counted_integer: "counted q \<Longrightarrow> is_integer q \<and> num_le (Fin 1) q"
  by (simp add: counted_def)

lemma counted_addItem:
  assumes "\<forall>i \<in> set items. counted (quantity i)"
  shows "\<forall>i \<in> set (addItem p items). counted (quantity i)"
proof (cases "product_id p \<in> set (map (\<lambda>i. product_id (product i)) items)")
  case True
  then show ?thesis
    using assms by (auto simp: addItem_existing counted_add_one)
next
  case False
  then show ?thesis
    using assms by (auto simp: addItem_new counted_one)
qed

lemma counted_apply_op:
  assumes "\<forall>i \<in> set items. counted (quantity i)"
    and "list_all (\<lambda>q. is_number q \<and> is_integer q) (quantity_args [op])"
  shows "\<forall>i \<in> set (apply_op items op). counted (quantity i)"
proof (cases op)
  case (AddItem p)
  then show ?thesis using assms(1) by (simp add: counted_addItem)
next
  case (RemoveItem k)
  then show ?thesis using assms(1) by (simp add: removeItem_def)
next
  case (UpdateQuantity k q)
  with assms(2) have "is_number q \<and> is_integer q" by simp
  then have "\<not> num_le q (Fin 0) \<Longrightarrow> counted q" by (rule counted_arg)
  then show ?thesis using assms(1) UpdateQuantity by (auto simp: updateQuantity_def)
next
  case ClearCart
  then show ?thesis by (simp add: clearCart_def)
qed

lemma quantity_args_append:
  "quantity_args (ops @ ops') = quantity_args ops @ quantity_args ops'"
  by (induction ops rule: quantity_args.induct) simp_all

lemma counted_run_ops:
  "list_all (\<lambda>q. is_number q \<and> is_integer q) (quantity_args ops) \<Longrightarrow> \<forall>i \<in> set (run_ops ops). counted (quantity i)"
proof (induction ops rule: rev_induct)
  case Nil
  show ?case by (simp add: run_ops_def)
next
  case (snoc op ops)
  from snoc.prems have "list_all (\<lambda>q. is_number q \<and> is_integer q) (quantity_args ops)"
    and op: "list_all (\<lambda>q. is_number q \<and> is_integer q) (quantity_args [op])"
    by (simp_all add: quantity_args_append)
  then have "\<forall>i \<in> set (run_ops ops). counted (quantity i)" using snoc.IH by simp
  then show ?case unfolding run_ops_snoc using op by (rule counted_apply_op)
qed

text \<open>
  C2, as the code has it. After every sequence of \<^verbatim>\<open>addItem\<close>, \<^verbatim>\<open>removeItem\<close>,
  \<^verbatim>\<open>updateQuantity\<close> and \<^verbatim>\<open>clearCart\<close> from the empty cart, the cart has at most one line
  item per product identifier; and when every quantity handed to \<^verbatim>\<open>updateQuantity\<close> is
  an integer, every line item has an integer quantity of at least 1.
\<close>

theorem cart_invariant:
  "distinct (map (\<lambda>i. product_id (product i)) (run_ops ops)) \<and>
   (list_all (\<lambda>q. is_number q \<and> is_integer q) (quantity_args ops) \<longrightarrow> cart_inv (run_ops ops))"
  using distinct_run_ops [of ops] counted_run_ops [of ops]
  by (auto simp: cart_inv_def list_all_iff dest: counted_integer)

theorem cart_invariant_witness:
  "list_all (\<lambda>q. is_number q \<and> is_integer q) (quantity_args [AddItem product1, AddItem product2, AddItem product1,
       UpdateQuantity ''2'' (Fin 7), RemoveItem ''1'', AddItem product1]) \<and>
   run_ops [AddItem product1, AddItem product2, AddItem product1,
       UpdateQuantity ''2'' (Fin 7), RemoveItem ''1'', AddItem product1]
     = [\<lparr>product = product2, quantity = Fin 7\<rparr>, \<lparr>product = product1, quantity = Fin 1\<rparr>] \<and>
   cart_inv (run_ops [AddItem product1, AddItem product2, AddItem product1,
       UpdateQuantity ''2'' (Fin 7), RemoveItem ''1'', AddItem product1])"
  using cart_invariant [of "[AddItem product1, AddItem product2, AddItem product1,
       UpdateQuantity ''2'' (Fin 7), RemoveItem ''1'', AddItem product1]"]
  by (simp add: run_ops_def addItem_def removeItem_def updateQuantity_def product1_def product2_def)

text \<open>
  C2 as the specification words it fails: \<^verbatim>\<open>updateQuantity\<close> stores any quantity that is
  not \<open>\<le> 0\<close>, here \<open>0.5\<close>.
\<close>

theorem cart_invariant_counterexample:
  "run_ops [AddItem product1, UpdateQuantity ''1'' (Fin (1/2))]
     = [\<lparr>product = product1, quantity = Fin (1/2)\<rparr>] \<and>
   \<not> cart_inv (run_ops [AddItem product1, UpdateQuantity ''1'' (Fin (1/2))])"
  by (simp add: run_ops_def addItem_def updateQuantity_def cart_inv_def product1_def)

section \<open>The pricing functions\<close>

text \<open>
  C4. \<^verbatim>\<open>calculateDiscount(price, discountPercent)\<close> throws, and what it throws is the
  error \<^verbatim>\<open>Discount must be between 0 and 100\<close>, if and only if \<open>discountPercent < 0\<close> or
  \<open>discountPercent > 100\<close>; otherwise it returns a number. It is a function of its two
  arguments, with no state to change.
\<close>

theorem calculateDiscount_throws_iff:
  "(calculateDiscount a d = Inl (Error ''Discount must be between 0 and 100''))
      = (num_lt d (Fin 0) \<or> num_gt d (Fin 100)) \<and>
   (\<exists>e. calculateDiscount a d = Inl e) = (num_lt d (Fin 0) \<or> num_gt d (Fin 100)) \<and>
   (\<exists>r. calculateDiscount a d = Inr r) = (\<not> (num_lt d (Fin 0) \<or> num_gt d (Fin 100)))"
  by (auto simp: calculateDiscount_def)

text \<open>
  The cart of \<^verbatim>\<open>useCart(10)\<close> holding one line item of unit price 80 and quantity 1,
  evaluated operation by operation.
\<close>

lemma useCart_one_item_80:
  assumes "price p = Fin 80"
  shows "useCart (Fin 10) [\<lparr>product = p, quantity = Fin 1\<rparr>] =
      Inr \<lparr>subtotal = Fin 80, discountedTotal = Fin 72, tax = literal (72/10),
           total = literal (792/10), itemCount = Fin 1\<rparr> \<and>
    round2 (num_add (Fin 72) (literal (72/10))) = literal (792/10)"
proof -
  have f1: "fl 80 = Fin 80"
    using fl_nearest [of "6" "80" 5629499534213120] by (simp add: power_int_minus)
  have f2: "fl 8000 = Fin 8000"
    using fl_nearest [of "12" "8000" 8796093022208000] by (simp add: power_int_minus)
  have f3: "fl (1 / 10) = Fin (3602879701896397 / 36028797018963968)"
    using fl_nearest [of "-4" "1 / 10" 7205759403792794] by (simp add: power_int_minus)
  have f4: "fl (32425917317067571 / 36028797018963968) = Fin (8106479329266893 / 9007199254740992)"
    using fl_nearest [of "-1" "32425917317067571 / 36028797018963968" 8106479329266893]
    by (simp add: power_int_minus)
  have f5: "fl (40532396646334465 / 562949953421312) = Fin 72"
    using fl_nearest [of "6" "40532396646334465 / 562949953421312" 5066549580791808]
    by (simp add: power_int_minus)
  have f6: "fl 7200 = Fin 7200"
    using fl_nearest [of "12" "7200" 7916483719987200] by (simp add: power_int_minus)
  have f7: "fl 72 = Fin 72"
    using fl_nearest [of "6" "72" 5066549580791808] by (simp add: power_int_minus)
  have f8: "fl (32425917317067573 / 4503599627370496) = Fin (8106479329266893 / 1125899906842624)"
    using fl_nearest [of "2" "32425917317067573 / 4503599627370496" 8106479329266893]
    by (simp add: power_int_minus)
  have f9: "fl (202661983231672325 / 281474976710656) = Fin 720"
    using fl_nearest [of "9" "202661983231672325 / 281474976710656" 6333186975989760]
    by (simp add: power_int_minus)
  have f10: "fl (36 / 5) = Fin (8106479329266893 / 1125899906842624)"
    using fl_nearest [of "2" "36 / 5" 8106479329266893] by (simp add: power_int_minus)
  have f11: "fl (89171272621935821 / 1125899906842624) = Fin (5573204538870989 / 70368744177664)"
    using fl_nearest [of "6" "89171272621935821 / 1125899906842624" 5573204538870989]
    by (simp add: power_int_minus)
  have f12: "fl (139330113471774725 / 17592186044416) = Fin 7920"
    using fl_nearest [of "12" "139330113471774725 / 17592186044416" 8708132091985920]
    by (simp add: power_int_minus)
  have f13: "fl (396 / 5) = Fin (5573204538870989 / 70368744177664)"
    using fl_nearest [of "6" "396 / 5" 5573204538870989] by (simp add: power_int_minus)
  have f14: "fl 1 = Fin 1"
    using fl_nearest [of "0" "1" 4503599627370496] by (simp add: power_int_minus)
  have m1: "\<lfloor>(16001 / 2 :: rat)\<rfloor> = 8000"
    by (simp add: floor_eq_iff)
  have m2: "\<lfloor>(14401 / 2 :: rat)\<rfloor> = 7200"
    by (simp add: floor_eq_iff)
  have m3: "\<lfloor>(1441 / 2 :: rat)\<rfloor> = 720"
    by (simp add: floor_eq_iff)
  have m4: "\<lfloor>(15841 / 2 :: rat)\<rfloor> = 7920"
    by (simp add: floor_eq_iff)
  show ?thesis
    by (simp add: useCart_def calculateTotal_def calculateDiscount_def calculateTax_def
        defaultTaxRate_def round2_def literal_def num_sub_def num_gt_def assms f1 f2 f3 f4 f5 f6 f7 f8 f9 f10 f11 f12 f13 f14 m1 m2 m3 m4)
qed

text \<open>
  C1. The cart of \<^verbatim>\<open>useCart(10)\<close> holding one line item of unit price 80 and quantity 1:
  the subtotal is 80, the discounted total 72, the tax 7.2 and the total 79.2 (the numbers
  these literals denote). For every discount percentage and every cart, whenever the hook
  returns: the subtotal is \<^verbatim>\<open>calculateTotal\<close> of the line items, the discounted total is
  \<^verbatim>\<open>calculateDiscount\<close> of the subtotal, the tax is \<^verbatim>\<open>calculateTax\<close> of the discounted total
  at the default rate, and the total is the sum of the discounted total and the tax,
  rounded to two decimals (\<^verbatim>\<open>round2\<close>); in the scenario that is 79.2.
\<close>

theorem cart_scenario:
  "(price p = Fin 80 \<longrightarrow>
      useCart (Fin 10) [\<lparr>product = p, quantity = Fin 1\<rparr>] =
        Inr \<lparr>subtotal = Fin 80, discountedTotal = Fin 72, tax = literal (72/10),
             total = literal (792/10), itemCount = Fin 1\<rparr>) \<and>
   round2 (num_add (Fin 72) (literal (72/10))) = literal (792/10) \<and>
   (useCart d items = Inr t \<longrightarrow>
      subtotal t = calculateTotal (map (\<lambda>i. (price (product i), quantity i)) items) \<and>
      calculateDiscount (subtotal t) d = Inr (discountedTotal t) \<and>
      tax t = calculateTax (discountedTotal t) defaultTaxRate \<and>
      total t = round2 (num_add (discountedTotal t) (tax t)))"
proof (intro conjI impI)
  assume "useCart d items = Inr t"
  then show "subtotal t = calculateTotal (map (\<lambda>i. (price (product i), quantity i)) items)"
    and "calculateDiscount (subtotal t) d = Inr (discountedTotal t)"
    and "tax t = calculateTax (discountedTotal t) defaultTaxRate"
    and "total t = round2 (num_add (discountedTotal t) (tax t))"
    by (auto simp: useCart_def Let_def round2_def split: sum.splits)
next
  show "round2 (num_add (Fin 72) (literal (72/10))) = literal (792/10)"
    using useCart_one_item_80 [of product1] by (simp add: product1_def)
next
  assume "price p = Fin 80"
  then show "useCart (Fin 10) [\<lparr>product = p, quantity = Fin 1\<rparr>] =
        Inr \<lparr>subtotal = Fin 80, discountedTotal = Fin 72, tax = literal (72/10),
             total = literal (792/10), itemCount = Fin 1\<rparr>"
    using useCart_one_item_80 [of p] by simp
qed

theorem cart_scenario_witness:
  "price product1 = Fin 80 \<and>
   useCart (Fin 10) [\<lparr>product = product1, quantity = Fin 1\<rparr>] =
      Inr \<lparr>subtotal = Fin 80, discountedTotal = Fin 72, tax = literal (72/10),
           total = literal (792/10), itemCount = Fin 1\<rparr> \<and>
   calculateDiscount (Fin 80) (Fin 10) = Inr (Fin 72) \<and>
   literal (72/10) = calculateTax (Fin 72) defaultTaxRate \<and>
   literal (792/10) = round2 (num_add (Fin 72) (literal (72/10)))"
proof -
  have p: "price product1 = Fin 80" by (simp add: product1_def)
  have s: "useCart (Fin 10) [\<lparr>product = product1, quantity = Fin 1\<rparr>] =
      Inr \<lparr>subtotal = Fin 80, discountedTotal = Fin 72, tax = literal (72/10),
           total = literal (792/10), itemCount = Fin 1\<rparr>"
    using cart_scenario [of product1] p by simp
  show ?thesis
    using cart_scenario [of product1 "Fin 10" "[\<lparr>product = product1, quantity = Fin 1\<rparr>]"
        "\<lparr>subtotal = Fin 80, discountedTotal = Fin 72, tax = literal (72/10),
           total = literal (792/10), itemCount = Fin 1\<rparr>"] p s
    by simp
qed

text \<open>
  The rounding of the total is no identity. In the cart of \<^verbatim>\<open>useCart(10)\<close> holding one
  line item of unit price 0.05 and quantity 1, the discounted total is 0.05 and the tax
  0.01; their binary64 sum is \<^verbatim>\<open>0.060000000000000005\<close>, and the total is 0.06.
\<close>

lemma useCart_total_rounded:
  assumes "price p = literal (5/100)"
  shows "useCart (Fin 10) [\<lparr>product = p, quantity = Fin 1\<rparr>] =
      Inr \<lparr>subtotal = literal (5/100), discountedTotal = literal (5/100),
           tax = literal (1/100), total = literal (6/100), itemCount = Fin 1\<rparr>"
    and "num_add (literal (5/100)) (literal (1/100)) =
      Fin (8646911284551353 / 144115188075855872)"
    and "num_add (literal (5/100)) (literal (1/100)) \<noteq> literal (6/100)"
proof -
  have g1: "fl (1 / 20) = Fin (3602879701896397 / 72057594037927936)"
    using fl_nearest [of "-5" "1 / 20" 7205759403792794] by (simp add: power_int_minus)
  have g2: "fl (3602879701896397 / 72057594037927936) = Fin (3602879701896397 / 72057594037927936)"
    using fl_nearest [of "-5" "3602879701896397 / 72057594037927936" 7205759403792794]
    by (simp add: power_int_minus)
  have g3: "fl (90071992547409925 / 18014398509481984) = Fin 5"
    using fl_nearest [of "2" "90071992547409925 / 18014398509481984" 5629499534213120]
    by (simp add: power_int_minus)
  have g4: "fl (1 / 10) = Fin (3602879701896397 / 36028797018963968)"
    using fl_nearest [of "-4" "1 / 10" 7205759403792794] by (simp add: power_int_minus)
  have g5: "fl (32425917317067571 / 36028797018963968) = Fin (8106479329266893 / 9007199254740992)"
    using fl_nearest [of "-1" "32425917317067571 / 36028797018963968" 8106479329266893]
    by (simp add: power_int_minus)
  have g6: "fl (29206669829258407752355848084521 / 649037107316853453566312041152512) = Fin (6485183463413515 / 144115188075855872)"
    using fl_nearest [of "-5" "29206669829258407752355848084521 / 649037107316853453566312041152512" 6485183463413515]
    by (simp add: power_int_minus)
  have g7: "fl (162129586585337875 / 36028797018963968) = Fin (5066549580791809 / 1125899906842624)"
    using fl_nearest [of "2" "162129586585337875 / 36028797018963968" 5066549580791809]
    by (simp add: power_int_minus)
  have g8: "fl (12980742146337070512478121581609 / 2596148429267413814265248164610048) = Fin (1441151880758559 / 288230376151711744)"
    using fl_nearest [of "-8" "12980742146337070512478121581609 / 2596148429267413814265248164610048" 5764607523034236]
    by (simp add: power_int_minus)
  have g9: "fl (36028797018963975 / 72057594037927936) = Fin (4503599627370497 / 9007199254740992)"
    using fl_nearest [of "-1" "36028797018963975 / 72057594037927936" 4503599627370497]
    by (simp add: power_int_minus)
  have g10: "fl (1 / 100) = Fin (5764607523034235 / 576460752303423488)"
    using fl_nearest [of "-7" "1 / 100" 5764607523034235] by (simp add: power_int_minus)
  have g11: "fl (34587645138205411 / 576460752303423488) = Fin (8646911284551353 / 144115188075855872)"
    using fl_nearest [of "-5" "34587645138205411 / 576460752303423488" 8646911284551353]
    by (simp add: power_int_minus)
  have g12: "fl (216172782113783825 / 36028797018963968) = Fin (6755399441055745 / 1125899906842624)"
    using fl_nearest [of "2" "216172782113783825 / 36028797018963968" 6755399441055745]
    by (simp add: power_int_minus)
  have g13: "fl (3 / 50) = Fin (1080863910568919 / 18014398509481984)"
    using fl_nearest [of "-5" "3 / 50" 8646911284551352] by (simp add: power_int_minus)
  have g14: "fl 1 = Fin 1"
    using fl_nearest [of "0" "1" 4503599627370496] by (simp add: power_int_minus)
  have n1: "\<lfloor>(11 / 2 :: rat)\<rfloor> = 5"
    by (simp add: floor_eq_iff)
  have n2: "\<lfloor>(5629499534213121 / 1125899906842624 :: rat)\<rfloor> = 5"
    by (simp add: floor_eq_iff)
  have n3: "\<lfloor>(9007199254740993 / 9007199254740992 :: rat)\<rfloor> = 1"
    by (simp add: floor_eq_iff)
  have n4: "\<lfloor>(7318349394477057 / 1125899906842624 :: rat)\<rfloor> = 6"
    by (simp add: floor_eq_iff)
  show "useCart (Fin 10) [\<lparr>product = p, quantity = Fin 1\<rparr>] =
      Inr \<lparr>subtotal = literal (5/100), discountedTotal = literal (5/100),
           tax = literal (1/100), total = literal (6/100), itemCount = Fin 1\<rparr>"
    by (simp add: useCart_def calculateTotal_def calculateDiscount_def calculateTax_def
        defaultTaxRate_def literal_def num_sub_def num_gt_def Let_def assms
        g1 g2 g3 g4 g5 g6 g7 g8 g9 g10 g11 g12 g13 g14 n1 n2 n3 n4)
  show "num_add (literal (5/100)) (literal (1/100)) =
      Fin (8646911284551353 / 144115188075855872)"
    by (simp add: literal_def g1 g10 g11)
  show "num_add (literal (5/100)) (literal (1/100)) \<noteq> literal (6/100)"
    by (simp add: literal_def g1 g10 g11 g13)
qed

lemma in_range_finite:
  assumes "num_le (Fin 0) d" "num_le d (Fin 100)"
  obtains t where "d = Fin t" "0 \<le> t" "t \<le> 100"
  using assms by (rule num_le_between)

lemma in_range_no_throw:
  assumes "num_le (Fin 0) d" "num_le d (Fin 100)"
  shows "calculateDiscount a d =
    Inr (round2 (num_mul a (num_sub (Fin 1) (div100 d))))"
proof -
  from assms obtain t where "d = Fin t" "0 \<le> t" "t \<le> 100" by (rule in_range_finite)
  then show ?thesis by (simp add: calculateDiscount_def round2_def num_gt_def)
qed

lemma discount_factor:
  assumes "0 \<le> t" "t \<le> 100"
  obtains f where "num_sub (Fin 1) (div100 (Fin t)) = Fin f" "0 \<le> f" "f \<le> 1"
proof -
  from assms have "0 \<le> t / 100" "t / 100 \<le> 1" by simp_all
  then obtain g where g: "fl (t / 100) = Fin g" "0 \<le> g" "g \<le> 1" by (rule fl_between)
  then have "0 \<le> 1 - g" "1 - g \<le> 1" by simp_all
  then obtain f where "fl (1 - g) = Fin f" "0 \<le> f" "f \<le> 1" by (rule fl_between)
  with g(1) show ?thesis using that by (simp add: num_sub_def)
qed

lemma calculateDiscount_zero:
  assumes "is_number a"
  shows "calculateDiscount a (Fin 0) = Inr (round2 a)"
proof -
  have "num_mul a (Fin 1) = a" using assms by (cases a) simp_all
  then show ?thesis by (simp add: calculateDiscount_def round2_def num_gt_def num_sub_def)
qed







lemma discount_le_round2:
  assumes "is_number a" "is_finite a" "num_le (Fin 0) a"
    and "num_le (Fin 0) d" "num_le d (Fin 100)"
  shows "\<exists>r. calculateDiscount a d = Inr r \<and> num_le r (round2 a) \<and>
             calculateDiscount a (Fin 0) = Inr (round2 a)"
proof -
  from assms(2,3) obtain r where a: "a = Fin r" "0 \<le> r" by (cases a) simp_all
  from assms(1) a have r: "fl r = Fin r" by simp
  from assms(4,5) obtain t where d: "d = Fin t" "0 \<le> t" "t \<le> 100" by (rule in_range_finite)
  from d(2,3) obtain f where f: "num_sub (Fin 1) (div100 (Fin t)) = Fin f" "0 \<le> f" "f \<le> 1"
    by (rule discount_factor)
  from a(2) f(3) have "r * f \<le> r" by (simp add: mult_left_le)
  then have "num_le (fl (r * f)) (fl r)" by (rule fl_mono)
  moreover have "num_mul a (num_sub (Fin 1) (div100 d)) = fl (r * f)"
    by (simp only: a d f(1) num_mul.simps)
  ultimately have "num_le (num_mul a (num_sub (Fin 1) (div100 d))) a"
    by (simp only: a r)
  then have "num_le (round2 (num_mul a (num_sub (Fin 1) (div100 d)))) (round2 a)"
    by (rule round2_mono)
  with in_range_no_throw [OF assms(4,5), of a] calculateDiscount_zero [OF assms(1)]
  show ?thesis by simp
qed


text \<open>A whole number of cents survives rounding to two decimals.\<close>

lemma round2_cents:
  assumes "0 \<le> n" "n < 2 ^ 50"
  shows "round2 (literal (of_int n / 100)) = literal (of_int n / 100)"
proof (cases "n = 0")
  case True
  then show ?thesis by (simp add: round2_def literal_def)
next
  case False
  with assms have n1: "1 \<le> n" by simp
  define x :: rat where "x = of_int n / 100"
  note nr = of_int_bounds_50 [OF n1 assms(2)]
  note cn = cents_normal [OF n1 assms(2), folded x_def]
  obtain a where a: "fl x = Fin a" "\<bar>a - x\<bar> \<le> x / 2 ^ 53"
    using fl_error [OF cn] by blast
  have xn: "x * 100 = of_int n" by (simp add: x_def)
  have x0: "0 \<le> x" using nr(1) by (simp add: x_def)
  note a_lo = rel_error_bounds(1) [OF a(2) x0] and a_hi = rel_error_bounds(2) [OF a(2) x0]
  have "(2::rat) powi (- 1022) \<le> 2 powi (- 1)" by (rule powi2_mono) simp
  also have "\<dots> = 1 / 2" by (simp add: power_int_minus)
  also have "\<dots> \<le> a * 100" using a_lo xn nr(1) by linarith
  finally have lo: "2 powi (- 1022) \<le> a * 100" .
  have "a * 100 < 2 * 2 ^ 50" using a_hi xn nr(2) by linarith
  then have "a * 100 < 2 ^ 51" by simp
  also have "\<dots> = 2 powi 51" by (simp add: power_int_def [of _ 51])
  also have "\<dots> \<le> 2 powi 1023" by (rule powi2_mono) simp
  finally have hi: "a * 100 < 2 powi 1023" .
  obtain y where y: "fl (a * 100) = Fin y" "\<bar>y - a * 100\<bar> \<le> a * 100 / 2 ^ 53"
    using fl_error [OF lo hi] by blast
  have nr': "(of_int n :: rat) < 1125899906842624" using nr(2) by simp
  have "of_int n \<le> y + 1/2" "y + 1/2 < of_int n + 1"
    using rel_error_D [OF y(2)] rel_error_D [OF a(2)] xn nr(1) nr' by linarith+
  then have "\<lfloor>y + 1/2\<rfloor> = n" by (intro floor_unique)
  then have "round2 (Fin a) = fl (of_int n / 100)" by (simp add: round2_def y(1))
  then show ?thesis by (simp add: literal_def a(1) x_def [symmetric])
qed

lemma literal_cents_number:
  assumes "0 \<le> n" "n < 2 ^ 50"
  obtains a where "literal (of_int n / 100) = Fin a" "0 \<le> a" "fl a = Fin a"
proof (cases "n = 0")
  case True
  show ?thesis by (rule that [of 0]) (simp_all add: True literal_def)
next
  case False
  with assms have n1: "1 \<le> n" by simp
  note cn = cents_normal [OF n1 assms(2)]
  obtain a where a: "fl (of_int n / 100) = Fin a" "\<bar>a - of_int n / 100\<bar> \<le> (of_int n / 100) / 2 ^ 53"
    using fl_error [OF cn] by blast
  have "0 \<le> (of_int n :: rat) / 100" using assms(1) by simp
  then have "num_le (Fin 0) (fl (of_int n / 100))" by (rule fl_nonneg)
  then have "0 \<le> a" by (simp add: a(1))
  moreover have "fl a = Fin a" using a(1) by (rule fl_idem)
  ultimately show ?thesis using a(1) that by (simp add: literal_def)
qed

lemma discount_le_cents:
  assumes "0 \<le> n" "n < 2 ^ 50" and "num_le (Fin 0) d" "num_le d (Fin 100)"
  shows "\<exists>r. calculateDiscount (literal (of_int n / 100)) d = Inr r \<and>
             num_le r (literal (of_int n / 100))"
proof -
  obtain a where a: "literal (of_int n / 100) = Fin a" "0 \<le> a" "fl a = Fin a"
    using literal_cents_number [OF assms(1,2)] by blast
  have "\<exists>r. calculateDiscount (Fin a) d = Inr r \<and> num_le r (round2 (Fin a)) \<and>
      calculateDiscount (Fin a) (Fin 0) = Inr (round2 (Fin a))"
    using a(2,3) assms(3,4) by (intro discount_le_round2) simp_all
  moreover have "round2 (Fin a) = Fin a"
    using round2_cents [OF assms(1,2)] by (simp only: a(1))
  ultimately show ?thesis by (simp only: a(1)) blast
qed

text \<open>
  C5, as the code has it. For a finite number \<open>a \<ge> 0\<close> and \<open>0 \<le> d \<le> 100\<close>,
  \<^verbatim>\<open>calculateDiscount(a, d)\<close> returns a number that is at most \<^verbatim>\<open>round2(a)\<close>, the value of
  \<^verbatim>\<open>calculateDiscount(a, 0)\<close>; and it is at most \<open>a\<close> itself when \<open>a\<close> is a whole number
  of cents, the number \<open>n / 100\<close> for an integer \<open>0 \<le> n < 2 ^ 50\<close>.
\<close>

theorem discount_bound:
  assumes "num_le (Fin 0) d" "num_le d (Fin 100)"
  shows "(is_number a \<and> is_finite a \<and> num_le (Fin 0) a \<longrightarrow>
            (\<exists>r. calculateDiscount a d = Inr r \<and> num_le r (round2 a) \<and>
                 calculateDiscount a (Fin 0) = Inr (round2 a))) \<and>
         (0 \<le> n \<and> n < 2 ^ 50 \<longrightarrow>
            (\<exists>r. calculateDiscount (literal (of_int n / 100)) d = Inr r \<and>
                 num_le r (literal (of_int n / 100))))"
  using discount_le_round2 [OF _ _ _ assms, of a] discount_le_cents [OF _ _ assms, of n]
  by blast

theorem discount_bound_witness:
  "num_le (Fin 0) (Fin 20) \<and> num_le (Fin 20) (Fin 100) \<and>
   is_number (Fin 100) \<and> is_finite (Fin 100) \<and> num_le (Fin 0) (Fin 100) \<and>
   (\<exists>r. calculateDiscount (Fin 100) (Fin 20) = Inr r \<and> num_le r (round2 (Fin 100)) \<and>
        calculateDiscount (Fin 100) (Fin 0) = Inr (round2 (Fin 100))) \<and>
   (0::int) \<le> 4999 \<and> (4999::int) < 2 ^ 50 \<and>
   (\<exists>r. calculateDiscount (literal (of_int 4999 / 100)) (Fin 20) = Inr r \<and>
        num_le r (literal (of_int 4999 / 100)))"
proof -
  have h: "num_le (Fin 0) (Fin 20)" "num_le (Fin 20) (Fin 100)" by simp_all
  have k: "is_number (Fin 100) \<and> is_finite (Fin 100) \<and> num_le (Fin 0) (Fin 100)"
    "(0::int) \<le> 4999 \<and> (4999::int) < 2 ^ 50" by simp_all
  from discount_bound [OF h, of "Fin 100" 4999] h k show ?thesis by blast
qed

text \<open>
  C5 as the specification words it fails: the amount 0.125 with no discount gives 0.13,
  which is more than the amount, \<^verbatim>\<open>Math.round(12.5)\<close> being 13.
\<close>

theorem discount_le_amount_counterexample:
  "calculateDiscount (Fin (1/8)) (Fin 0) = Inr (literal (13/100)) \<and>
   \<not> num_le (literal (13/100)) (Fin (1/8))"
proof -
  have f1: "fl 1 = Fin 1"
    using fl_nearest [of "0" "1" 4503599627370496] by (simp add: power_int_minus)
  have f2: "fl (1 / 8) = Fin (1 / 8)"
    using fl_nearest [of "-3" "1 / 8" 4503599627370496] by (simp add: power_int_minus)
  have f3: "fl (25 / 2) = Fin (25 / 2)"
    using fl_nearest [of "3" "25 / 2" 7036874417766400] by (simp add: power_int_minus)
  have f4: "fl (3 / 25) = Fin (1080863910568919 / 9007199254740992)"
    using fl_nearest [of "-4" "3 / 25" 8646911284551352] by (simp add: power_int_minus)
  have f5: "fl (13 / 100) = Fin (1170935903116329 / 9007199254740992)"
    using fl_nearest [of "-3" "13 / 100" 4683743612465316] by (simp add: power_int_minus)
  have f6: "fl (33 / 100) = Fin (5944751508129055 / 18014398509481984)"
    using fl_nearest [of "-2" "33 / 100" 5944751508129055] by (simp add: power_int_minus)
  have f7: "fl (12069647001352929 / 18014398509481984) = Fin (377176468792279 / 562949953421312)"
    using fl_tie [of "-1" "12069647001352929 / 18014398509481984" 6034823500676464]
    by (simp add: power_int_minus)
  have f8: "fl (1131529406376837 / 1125899906842624) = Fin (1131529406376837 / 1125899906842624)"
    using fl_nearest [of "0" "1131529406376837 / 1125899906842624" 4526117625507348]
    by (simp add: power_int_minus)
  have f9: "fl (28288235159420925 / 281474976710656) = Fin (7072058789855231 / 70368744177664)"
    using fl_nearest [of "6" "28288235159420925 / 281474976710656" 7072058789855231]
    by (simp add: power_int_minus)
  have f10: "fl (101 / 100) = Fin (4548635623644201 / 4503599627370496)"
    using fl_nearest [of "0" "101 / 100" 4548635623644201] by (simp add: power_int_minus)
  have m1: "\<lfloor>(7107243161944063 / 70368744177664 :: rat)\<rfloor> = 100"
    by (simp add: floor_eq_iff)
  show ?thesis
    by (simp add: calculateDiscount_def num_gt_def num_sub_def literal_def f1 f2 f3 f4 f5 f6 f7 f8 f9 f10 m1)
qed

text \<open>The error of one line total: a price in whole cents times an integer quantity.\<close>

lemma line_error:
  assumes "0 \<le> c" "1 \<le> q" "c * q < 2 ^ 50"
  obtains m where "num_mul (literal (of_int c / 100)) (Fin (of_int q)) = Fin m"
    and "\<bar>m - of_int (c * q) / 100\<bar> \<le> 3 * (of_int (c * q) / 100) / 2 ^ 53"
    and "m = 0 \<or> 1 / 128 \<le> m"
proof (cases "c = 0")
  case True
  show ?thesis by (rule that [of 0]) (simp_all add: True literal_def)
next
  case False
  with assms(1) have c1: "1 \<le> c" by simp
  have "c * 1 \<le> c * q" using assms(1,2) by (intro mult_left_mono) simp_all
  with assms(3) have c50: "c < 2 ^ 50" by simp
  define x :: rat where "x = of_int c / 100"
  define qr :: rat where "qr = of_int q"
  have qr: "1 \<le> qr" using assms(2) unfolding qr_def by (simp only: of_int_1_le_iff)
  note cr = of_int_bounds_50 [OF c1 c50]
  have x128: "1 / 128 \<le> x" using cr(1) by (simp add: x_def)
  have x0: "0 \<le> x" using x128 by simp
  note cn = cents_normal [OF c1 c50, folded x_def]
  obtain a where a: "fl x = Fin a" "\<bar>a - x\<bar> \<le> x / 2 ^ 53"
    using fl_error [OF cn] by blast
  have a128: "1 / 128 \<le> a" using x128 a(1) by (rule fl_ge_128)
  note a_hi = rel_error_bounds(2) [OF a(2) x0]
  have M: "of_int (c * q) / 100 = x * qr" by (simp add: x_def qr_def)
  have "(of_int (c * q) :: rat) < of_int (2 ^ 50)" using assms(3) by (simp only: of_int_less_iff)
  then have Mhi: "x * qr < 2 ^ 50" unfolding M [symmetric] by simp
  have aq_lo: "1 / 128 \<le> a * qr"
  proof -
    have "0 \<le> a" using a128 by simp
    then have "a * 1 \<le> a * qr" using qr by (rule mult_left_mono [rotated])
    then have "a \<le> a * qr" by simp
    with a128 show ?thesis by (rule order_trans)
  qed
  have aq_hi2: "a * qr \<le> 2 * (x * qr)"
  proof -
    have "a * qr \<le> (2 * x) * qr" using a_hi qr by (intro mult_right_mono) simp_all
    then show ?thesis by (simp add: mult.assoc)
  qed
  then have "a * qr < 2 ^ 60" using Mhi by simp
  note nr = normal_range [OF aq_lo this]
  obtain m where m: "fl (a * qr) = Fin m" "\<bar>m - a * qr\<bar> \<le> a * qr / 2 ^ 53"
    using fl_error [OF nr] by blast
  have d1: "a * qr - x * qr \<le> x * qr / 9007199254740992"
    and d2: "x * qr - a * qr \<le> x * qr / 9007199254740992"
  proof -
    have "(a - x) * qr \<le> (x / 9007199254740992) * qr"
      using rel_error_D(1) [OF a(2)] qr by (intro mult_right_mono) simp_all
    then show "a * qr - x * qr \<le> x * qr / 9007199254740992" by (simp add: algebra_simps)
    have "(x - a) * qr \<le> (x / 9007199254740992) * qr"
      using rel_error_D(2) [OF a(2)] qr by (intro mult_right_mono) simp_all
    then show "x * qr - a * qr \<le> x * qr / 9007199254740992" by (simp add: algebra_simps)
  qed
  have xq0: "0 \<le> x * qr" using x0 qr by simp
  have "\<bar>m - x * qr\<bar> \<le> 3 * (x * qr) / 9007199254740992"
    using rel_error_D [OF m(2)] d1 d2 aq_hi2 xq0 by (simp only: abs_le_iff) linarith
  then have e: "\<bar>m - of_int (c * q) / 100\<bar> \<le> 3 * (of_int (c * q) / 100) / 2 ^ 53"
    unfolding M by simp
  have "1 / 128 \<le> m" using aq_lo m(1) by (rule fl_ge_128)
  moreover have "num_mul (literal (of_int c / 100)) (Fin (of_int q)) = Fin m"
    by (simp add: literal_def x_def [symmetric] a(1) qr_def [symmetric] m(1))
  ultimately show ?thesis using e that by blast
qed


lemma line_totals_nonneg:
  assumes "\<forall>l\<in>set ls. 0 \<le> fst l \<and> 1 \<le> snd l"
  shows "0 \<le> (\<Sum>l\<leftarrow>ls. (of_int (fst l * snd l) :: rat) / 100)"
  using assms by (intro sum_list_nonneg) auto

text \<open>
  The error of the accumulated sum: every line adds at most \<open>g\<close>, six rounding units
  of the bound \<open>B\<close> of the exact total.
\<close>

lemma sum_error:
  fixes B g :: rat
  assumes "g = 6 * B / 9007199254740992" and "100 * B < 2 ^ 50"
    and "\<forall>l\<in>set ls. 0 \<le> fst l \<and> 1 \<le> snd l"
    and "s = 0 \<or> 1 / 128 \<le> s" and "\<bar>s - A\<bar> \<le> E" and "0 \<le> A" and "0 \<le> E"
    and "A + (\<Sum>l\<leftarrow>ls. of_int (fst l * snd l) / 100) \<le> B"
    and "E + of_nat (length ls) * g \<le> B"
  shows "\<exists>s'. foldl (\<lambda>sum item. num_add sum (num_mul (fst item) (snd item))) (Fin s)
              (map cent_line ls) = Fin s' \<and>
           \<bar>s' - (A + (\<Sum>l\<leftarrow>ls. of_int (fst l * snd l) / 100))\<bar> \<le> E + of_nat (length ls) * g \<and>
           (s' = 0 \<or> 1 / 128 \<le> s')"
  using assms(3-)
proof (induction ls arbitrary: s A E)
  case Nil
  then show ?case by simp
next
  case (Cons l ls)
  define c where "c = fst l"
  define q where "q = snd l"
  define M :: rat where "M = of_int (c * q) / 100"
  define R :: rat where "R = (\<Sum>l\<leftarrow>ls. of_int (fst l * snd l) / 100)"
  define k :: rat where "k = of_nat (length ls)"
  from Cons.prems(1) have cq: "0 \<le> c" "1 \<le> q" and rest: "\<forall>l\<in>set ls. 0 \<le> fst l \<and> 1 \<le> snd l"
    by (simp_all add: c_def q_def)
  have R0: "0 \<le> R" unfolding R_def using rest by (rule line_totals_nonneg)
  have k0: "0 \<le> k" by (simp add: k_def)
  have "0 \<le> c * q" using cq by simp
  then have "(of_int 0 :: rat) \<le> of_int (c * q)" by (simp only: of_int_le_iff)
  then have M0: "0 \<le> M" by (simp add: M_def)
  have sumB: "A + (M + R) \<le> B" using Cons.prems(6) by (simp add: M_def R_def c_def q_def)
  have errB: "E + (k + 1) * g \<le> B" using Cons.prems(7) by (simp add: k_def add.commute)
  have B0: "0 \<le> B" using sumB Cons.prems(4) M0 R0 by linarith
  have g0: "0 \<le> g" using B0 by (simp add: assms(1))
  have kg0: "0 \<le> k * g" using k0 g0 by simp
  have errB': "E + k * g + g \<le> B" using errB by (simp add: algebra_simps)
  have MB: "M \<le> B" using sumB Cons.prems(4) R0 by linarith
  have "of_int (c * q) = 100 * M" by (simp add: M_def)
  also have "\<dots> < 2 ^ 50" using MB assms(2) by simp
  finally have "(of_int (c * q) :: rat) < of_int (2 ^ 50)" by simp
  then have cq50: "c * q < 2 ^ 50" by (simp only: of_int_less_iff)
  obtain m where m: "num_mul (literal (of_int c / 100)) (Fin (of_int q)) = Fin m"
    "\<bar>m - M\<bar> \<le> 3 * M / 2 ^ 53" "m = 0 \<or> 1 / 128 \<le> m"
    using line_error [OF cq cq50] unfolding M_def by blast
  have mM: "\<bar>m - M\<bar> \<le> g / 2"
  proof -
    have "3 * M / 2 ^ 53 \<le> 3 * B / 2 ^ 53" using MB by (simp add: divide_right_mono)
    also have "\<dots> = g / 2" by (simp add: assms(1))
    finally show ?thesis using m(2) by simp
  qed
  have s0: "0 \<le> s" using Cons.prems(2) by auto
  have m0: "0 \<le> m" using m(3) by auto
  define x where "x = s + m"
  have x_hi: "x \<le> 3 * B"
    using Cons.prems(3) mM sumB R0 errB' kg0 g0 unfolding x_def by (simp only: abs_le_iff) linarith
  have step: "num_add (Fin s) (num_mul (fst (cent_line l)) (snd (cent_line l))) = fl x"
    by (simp add: cent_line_def c_def [symmetric] q_def [symmetric] m(1) x_def)
  obtain t where t: "fl x = Fin t" "\<bar>t - x\<bar> \<le> g / 2" "t = 0 \<or> 1 / 128 \<le> t"
  proof (cases "x = 0")
    case True
    show ?thesis by (rule that [of 0]) (simp_all add: True g0)
  next
    case False
    with s0 m0 Cons.prems(2) m(3) have x128: "1 / 128 \<le> x" unfolding x_def by linarith
    have "x < 2 ^ 60" using x_hi assms(2) by simp
    note nr = normal_range [OF x128 this]
    obtain t where t: "fl x = Fin t" "\<bar>t - x\<bar> \<le> x / 2 ^ 53" using fl_error [OF nr] by blast
    have "x / 2 ^ 53 \<le> 3 * B / 2 ^ 53" using x_hi by (simp add: divide_right_mono)
    also have "\<dots> = g / 2" by (simp add: assms(1))
    finally have "\<bar>t - x\<bar> \<le> g / 2" using t(2) by simp
    moreover have "1 / 128 \<le> t" using x128 t(1) by (rule fl_ge_128)
    ultimately show ?thesis using t(1) that by blast
  qed
  have err: "\<bar>t - (A + M)\<bar> \<le> E + g"
    using t(2) mM Cons.prems(3) unfolding x_def by (simp only: abs_le_iff) linarith
  have "\<exists>s'. foldl (\<lambda>sum item. num_add sum (num_mul (fst item) (snd item))) (Fin t)
              (map cent_line ls) = Fin s' \<and>
           \<bar>s' - (A + M + (\<Sum>l\<leftarrow>ls. of_int (fst l * snd l) / 100))\<bar>
             \<le> E + g + of_nat (length ls) * g \<and>
           (s' = 0 \<or> 1 / 128 \<le> s')"
  proof (rule Cons.IH [OF rest t(3) err])
    show "0 \<le> A + M" using Cons.prems(4) M0 by simp
    show "0 \<le> E + g" using Cons.prems(5) g0 by simp
    show "A + M + (\<Sum>l\<leftarrow>ls. of_int (fst l * snd l) / 100) \<le> B"
      using sumB by (simp add: R_def add.assoc)
    show "E + g + of_nat (length ls) * g \<le> B" using errB' by (simp add: k_def)
  qed
  then obtain s' where s': "foldl (\<lambda>sum item. num_add sum (num_mul (fst item) (snd item))) (Fin t)
              (map cent_line ls) = Fin s'"
     "\<bar>s' - (A + M + R)\<bar> \<le> E + g + k * g" "s' = 0 \<or> 1 / 128 \<le> s'"
    unfolding R_def k_def by blast
  have "foldl (\<lambda>sum item. num_add sum (num_mul (fst item) (snd item))) (Fin s)
      (map cent_line (l # ls)) = Fin s'"
    by (simp add: step t(1) s'(1))
  moreover have "\<bar>s' - (A + (\<Sum>l\<leftarrow>l # ls. of_int (fst l * snd l) / 100))\<bar>
      \<le> E + of_nat (length (l # ls)) * g"
  proof -
    have "A + (\<Sum>l\<leftarrow>l # ls. of_int (fst l * snd l) / 100) = A + M + R"
      by (simp add: M_def R_def c_def q_def)
    moreover have "E + of_nat (length (l # ls)) * g = E + g + k * g"
      by (simp add: k_def algebra_simps)
    ultimately show ?thesis using s'(2) by simp
  qed
  ultimately show ?case using s'(3) by blast
qed


lemma sum_list_cents:
  "(\<Sum>l\<leftarrow>ls. (of_int (f l) :: rat) / 100) = of_int (\<Sum>l\<leftarrow>ls. f l) / 100"
  by (induction ls) (simp_all add: add_divide_distrib)

lemma calculateTotal_cents:
  assumes lines: "\<forall>l\<in>set ls. 0 \<le> fst l \<and> 1 \<le> snd l"
    and small: "(6 * int (length ls) + 2) * (\<Sum>l\<leftarrow>ls. fst l * snd l) < 2 ^ 52"
  shows "calculateTotal (map cent_line ls) = literal (of_int (\<Sum>l\<leftarrow>ls. fst l * snd l) / 100)"
proof -
  define T where "T = (\<Sum>l\<leftarrow>ls. fst l * snd l)"
  define n where "n = int (length ls)"
  define S :: rat where "S = of_int T / 100"
  define w :: rat where "w = of_nat (length ls) * S"
  define g :: rat where "g = 6 * S / 9007199254740992"
  have T0: "0 \<le> T" unfolding T_def using lines by (intro sum_list_nonneg) auto
  have n0: "0 \<le> n" by (simp add: n_def)
  have sm: "(6 * n + 2) * T < 2 ^ 52" using small by (simp add: T_def n_def)
  have S0: "0 \<le> S" using T0 by (simp add: S_def)
  have w0: "0 \<le> w" using S0 by (simp add: w_def)
  have TS: "of_int T = 100 * S" by (simp add: S_def)
  have "(of_int ((6 * n + 2) * T) :: rat) < of_int (2 ^ 52)" using sm by (simp only: of_int_less_iff)
  then have "(6 * of_int n + 2) * (100 * S) < (2 ^ 52 :: rat)" by (simp add: TS)
  moreover have "(of_int n :: rat) = of_nat (length ls)" by (simp add: n_def)
  ultimately have smr: "600 * w + 200 * S < 4503599627370496" by (simp add: w_def algebra_simps)
  have "2 * T \<le> (6 * n + 2) * T" using n0 T0 by (intro mult_right_mono) simp_all
  with sm have "T < 2 ^ 51" by simp
  then have "(of_int T :: rat) < of_int (2 ^ 51)" by (simp only: of_int_less_iff)
  then have S51: "100 * S < 2 ^ 51" by (simp add: TS)
  have Tsmall: "100 * S < 2 ^ 50"
  proof (cases "length ls = 0")
    case True
    then show ?thesis by (simp add: S_def T_def)
  next
    case False
    then have "0 < length ls" by simp
    then have "1 \<le> n" unfolding n_def by linarith
    then have "8 * T \<le> (6 * n + 2) * T" using T0 by (intro mult_right_mono) simp_all
    with sm have "T < 2 ^ 49" by simp
    then have "(of_int T :: rat) < of_int (2 ^ 49)" by (simp only: of_int_less_iff)
    then show ?thesis by (simp add: TS)
  qed
  have ng: "of_nat (length ls) * g = 6 * w / 9007199254740992" by (simp add: g_def w_def)
  have ngS: "of_nat (length ls) * g \<le> S / 2"
  proof (cases "T = 0")
    case True
    then show ?thesis by (simp add: g_def S_def)
  next
    case False
    with T0 have "1 \<le> T" by simp
    then have "(6 * n + 2) * 1 \<le> (6 * n + 2) * T" using n0 by (intro mult_left_mono) simp_all
    with sm have "6 * n < 2 ^ 52" by simp
    then have "(of_int (6 * n) :: rat) < of_int (2 ^ 52)" by (simp only: of_int_less_iff)
    then have "6 * (of_nat (length ls) :: rat) < 4503599627370496" by (simp add: n_def)
    then have "6 * (of_nat (length ls) :: rat) / 9007199254740992 \<le> 1 / 2" by simp
    then have "6 * (of_nat (length ls) :: rat) / 9007199254740992 * S \<le> 1 / 2 * S"
      using S0 by (rule mult_right_mono)
    then show ?thesis by (simp add: g_def)
  qed
  have sumS: "(\<Sum>l\<leftarrow>ls. of_int (fst l * snd l) / 100) = S"
    by (simp only: sum_list_cents S_def T_def)
  have "\<exists>s'. foldl (\<lambda>sum item. num_add sum (num_mul (fst item) (snd item))) (Fin 0)
              (map cent_line ls) = Fin s' \<and>
           \<bar>s' - (0 + (\<Sum>l\<leftarrow>ls. of_int (fst l * snd l) / 100))\<bar> \<le> 0 + of_nat (length ls) * g \<and>
           (s' = 0 \<or> 1 / 128 \<le> s')"
  proof (rule sum_error [OF g_def Tsmall lines])
    show "(0::rat) = 0 \<or> 1 / 128 \<le> (0::rat)" by simp
    show "\<bar>0 - 0\<bar> \<le> (0::rat)" by simp
    show "0 + (\<Sum>l\<leftarrow>ls. of_int (fst l * snd l) / 100) \<le> S"
      by (simp only: sumS add_0 order_refl)
    show "0 + of_nat (length ls) * g \<le> S" using ngS S0 by simp
  qed simp_all
  then obtain s' where s': "foldl (\<lambda>sum item. num_add sum (num_mul (fst item) (snd item))) (Fin 0)
              (map cent_line ls) = Fin s'"
    "\<bar>s' - S\<bar> \<le> 6 * w / 9007199254740992" "s' = 0 \<or> 1 / 128 \<le> s'"
    unfolding sumS add_0 ng by blast
  have total: "calculateTotal (map cent_line ls) = div100 (Math_round (fl (s' * 100)))"
    by (simp add: calculateTotal_def s'(1))
  have wS: "6 * w / 9007199254740992 \<le> S / 2" using ngS by (simp only: ng)
  show ?thesis
  proof (cases "s' = 0")
    case True
    with s'(2) wS smr w0 S0 have "S = 0" by (simp only: abs_le_iff) linarith
    then have "T = 0" by (simp add: S_def)
    with True total show ?thesis by (simp add: literal_def T_def)
  next
    case False
    with s'(3) have s128: "1 / 128 \<le> s'" by simp
    have "s' * 100 \<le> 200 * S" using s'(2) wS by (simp only: abs_le_iff) linarith
    with S51 have hi: "s' * 100 < 2 ^ 60" by simp
    have lo: "1 / 128 \<le> s' * 100" using s128 by simp
    note nr = normal_range [OF lo hi]
    obtain y where y: "fl (s' * 100) = Fin y" "\<bar>y - s' * 100\<bar> \<le> s' * 100 / 2 ^ 53"
      using fl_error [OF nr] by blast
    have "100 * S \<le> y + 1/2" "y + 1/2 < 100 * S + 1"
      using rel_error_D [OF y(2)] s'(2) wS smr w0 S0 by (simp_all only: abs_le_iff) linarith+
    then have "\<lfloor>y + 1/2\<rfloor> = T" by (intro floor_unique) (simp_all add: TS)
    then show ?thesis by (simp add: total y(1) literal_def T_def)
  qed
qed

lemma mset_sum_list_eq:
  assumes "mset ls' = mset ls"
  shows "(\<Sum>l\<leftarrow>ls'. f l) = (\<Sum>l\<leftarrow>ls. f (l :: int \<times> int) :: int)"
proof -
  have "mset (map f ls') = mset (map f ls)" using assms by simp
  then have "sum_mset (mset (map f ls')) = sum_mset (mset (map f ls))" by simp
  then show ?thesis by (simp only: sum_mset_sum_list)
qed

text \<open>
  C8, as the code has it. \<^verbatim>\<open>calculateTotal\<close> of the empty sequence is 0. In general it is
  \<^verbatim>\<open>round2\<close>, applied once, of the sum that binary64 addition accumulates from the left,
  starting at 0, of the binary64 products \<open>price * quantity\<close>. For \<open>n\<close> lines with prices
  in whole cents and integer quantities from 1 on, whose exact total is \<open>T\<close> cents with
  \<open>(6 * n + 2) * T < 2 ^ 52\<close>, the result is the number \<open>T / 100\<close>, and the same for every
  permutation of the lines.
\<close>

theorem calculateTotal_spec:
  "calculateTotal [] = Fin 0 \<and>
   calculateTotal lines =
     round2 (foldl (\<lambda>sum item. num_add sum (num_mul (fst item) (snd item))) (Fin 0) lines) \<and>
   ((\<forall>l\<in>set ls. 0 \<le> fst l \<and> 1 \<le> snd l) \<and>
    (6 * int (length ls) + 2) * (\<Sum>l\<leftarrow>ls. fst l * snd l) < 2 ^ 52 \<longrightarrow>
      calculateTotal (map cent_line ls) = literal (of_int (\<Sum>l\<leftarrow>ls. fst l * snd l) / 100) \<and>
      (mset ls' = mset ls \<longrightarrow>
         calculateTotal (map cent_line ls') = calculateTotal (map cent_line ls)))"
proof (intro conjI impI)
  show "calculateTotal [] = Fin 0" by (simp add: calculateTotal_def)
  show "calculateTotal lines =
     round2 (foldl (\<lambda>sum item. num_add sum (num_mul (fst item) (snd item))) (Fin 0) lines)"
    by (simp add: calculateTotal_def round2_def)
next
  assume "(\<forall>l\<in>set ls. 0 \<le> fst l \<and> 1 \<le> snd l) \<and>
    (6 * int (length ls) + 2) * (\<Sum>l\<leftarrow>ls. fst l * snd l) < 2 ^ 52"
  then have lines: "\<forall>l\<in>set ls. 0 \<le> fst l \<and> 1 \<le> snd l"
    and small: "(6 * int (length ls) + 2) * (\<Sum>l\<leftarrow>ls. fst l * snd l) < 2 ^ 52" by simp_all
  from lines small
  show e: "calculateTotal (map cent_line ls) = literal (of_int (\<Sum>l\<leftarrow>ls. fst l * snd l) / 100)"
    by (rule calculateTotal_cents)
  assume p: "mset ls' = mset ls"
  then have t: "(\<Sum>l\<leftarrow>ls'. fst l * snd l) = (\<Sum>l\<leftarrow>ls. fst l * snd l)"
    by (rule mset_sum_list_eq)
  from p have "set ls' = set ls" and "length ls' = length ls"
    by (auto dest: mset_eq_setD mset_eq_length)
  with lines small t
  have "calculateTotal (map cent_line ls') = literal (of_int (\<Sum>l\<leftarrow>ls'. fst l * snd l) / 100)"
    by (intro calculateTotal_cents) simp_all
  then show "calculateTotal (map cent_line ls') = calculateTotal (map cent_line ls)"
    by (simp only: e t)
qed

theorem calculateTotal_spec_witness:
  "(0::int) \<le> 1000 \<and> (1::int) \<le> 2 \<and> (0::int) \<le> 550 \<and> (1::int) \<le> 3 \<and>
   (6 * int (length [(1000, 2), (550, 3 :: int)]) + 2)
      * (\<Sum>l\<leftarrow>[(1000, 2), (550, 3 :: int)]. fst l * snd l) < (2 ^ 52 :: int) \<and>
   calculateTotal (map cent_line [(1000, 2), (550, 3)]) = literal (3650 / 100) \<and>
   mset [(550, 3), (1000, 2 :: int)] = mset [(1000, 2), (550, 3 :: int)] \<and>
   calculateTotal (map cent_line [(550, 3), (1000, 2)])
     = calculateTotal (map cent_line [(1000, 2), (550, 3)])"
  using calculateTotal_spec [of "[]" "[(1000, 2), (550, 3)]" "[(550, 3), (1000, 2)]"]
  by simp

text \<open>
  C8 as the specification words it fails: binary64 addition is not associative, and the
  order of the lines decides on which side of half a cent the sum falls. The prices
  1.387, 0.449 and 1.559, each with quantity 1, give 3.4 in this order and 3.39 with the
  last two exchanged.
\<close>

theorem calculateTotal_order_counterexample:
  "calculateTotal [(literal (1387/1000), Fin 1), (literal (449/1000), Fin 1),
       (literal (1559/1000), Fin 1)] = literal (340/100) \<and>
   calculateTotal [(literal (1387/1000), Fin 1), (literal (1559/1000), Fin 1),
       (literal (449/1000), Fin 1)] = literal (339/100) \<and>
   literal (340/100) \<noteq> literal (339/100)"
proof -
  have f1: "fl (1387 / 1000) = Fin (3123246341581439 / 2251799813685248)"
    using fl_nearest [of "0" "1387 / 1000" 6246492683162878] by (simp add: power_int_minus)
  have f2: "fl (449 / 1000) = Fin (8088464930757411 / 18014398509481984)"
    using fl_nearest [of "-2" "449 / 1000" 8088464930757411] by (simp add: power_int_minus)
  have f3: "fl (1559 / 1000) = Fin (7021111819070603 / 4503599627370496)"
    using fl_nearest [of "0" "1559 / 1000" 7021111819070603] by (simp add: power_int_minus)
  have f4: "fl (3123246341581439 / 2251799813685248) = Fin (3123246341581439 / 2251799813685248)"
    using fl_nearest [of "0" "3123246341581439 / 2251799813685248" 6246492683162878]
    by (simp add: power_int_minus)
  have f5: "fl (8088464930757411 / 18014398509481984) = Fin (8088464930757411 / 18014398509481984)"
    using fl_nearest [of "-2" "8088464930757411 / 18014398509481984" 8088464930757411]
    by (simp add: power_int_minus)
  have f6: "fl (33074435663408923 / 18014398509481984) = Fin (8268608915852231 / 4503599627370496)"
    using fl_nearest [of "0" "33074435663408923 / 18014398509481984" 8268608915852231]
    by (simp add: power_int_minus)
  have f7: "fl (7021111819070603 / 4503599627370496) = Fin (7021111819070603 / 4503599627370496)"
    using fl_nearest [of "0" "7021111819070603 / 4503599627370496" 7021111819070603]
    by (simp add: power_int_minus)
  have f8: "fl (7644860367461417 / 2251799813685248) = Fin (7644860367461417 / 2251799813685248)"
    using fl_nearest [of "1" "7644860367461417 / 2251799813685248" 7644860367461417]
    by (simp add: power_int_minus)
  have f9: "fl (191121509186535425 / 562949953421312) = Fin (679 / 2)"
    using fl_nearest [of "8" "191121509186535425 / 562949953421312" 5972547162079232]
    by (simp add: power_int_minus)
  have f10: "fl (17 / 5) = Fin (7656119366529843 / 2251799813685248)"
    using fl_nearest [of "1" "17 / 5" 7656119366529843] by (simp add: power_int_minus)
  have f11: "fl (13267604502233481 / 4503599627370496) = Fin (1658450562779185 / 562949953421312)"
    using fl_tie [of "1" "13267604502233481 / 4503599627370496" 6633802251116740]
    by (simp add: power_int_minus)
  have f12: "fl (61158882939691331 / 18014398509481984) = Fin (955607545932677 / 281474976710656)"
    using fl_nearest [of "1" "61158882939691331 / 18014398509481984" 7644860367461416]
    by (simp add: power_int_minus)
  have f13: "fl (23890188648316925 / 70368744177664) = Fin (5972547162079231 / 17592186044416)"
    using fl_nearest [of "8" "23890188648316925 / 70368744177664" 5972547162079231]
    by (simp add: power_int_minus)
  have f14: "fl (339 / 100) = Fin (7633601368392991 / 2251799813685248)"
    using fl_nearest [of "1" "339 / 100" 7633601368392991] by (simp add: power_int_minus)
  have m1: "\<lfloor>(5981343255101439 / 17592186044416 :: rat)\<rfloor> = 339"
    by (simp add: floor_eq_iff)
  show ?thesis
    by (simp add: calculateTotal_def literal_def f1 f2 f3 f4 f5 f6 f7 f8 f9 f10 f11 f12 f13 f14 m1)
qed

section \<open>The catalog loader\<close>

text \<open>
  One run of the effect whose request rejects, if at all, with a reason that has a
  string for its message (as an \<^verbatim>\<open>Error\<close> has): the hook is loading with no products and
  no error, or it has the products fetched and no error, or it has the message of the
  failure and no products.
\<close>

lemma single_run_states:
  assumes "RunEffect \<notin> set events"
    and "\<forall>r. Rejected r \<in> set events \<longrightarrow> (\<exists>message. r = Reason (Str message))"
  shows "(\<exists>b. useProducts events = \<lparr>products = [], loading = True, error = Null, pending = b\<rparr>) \<or>
         (\<exists>data. useProducts events =
            \<lparr>products = data, loading = False, error = Null, pending = False\<rparr>) \<or>
         (\<exists>message. useProducts events =
            \<lparr>products = [], loading = False, error = Str message, pending = False\<rparr>)"
  using assms
proof (induction events rule: rev_induct)
  case Nil
  have "useProducts [] = \<lparr>products = [], loading = True, error = Null, pending = True\<rparr>"
    by (simp add: useProducts_def initial_def)
  then show ?case by blast
next
  case (snoc ev events)
  then have ev: "ev \<noteq> RunEffect" "\<And>r. ev = Rejected r \<Longrightarrow> \<exists>message. r = Reason (Str message)"
    by auto
  have IH: "(\<exists>b. useProducts events = \<lparr>products = [], loading = True, error = Null, pending = b\<rparr>) \<or>
         (\<exists>data. useProducts events =
            \<lparr>products = data, loading = False, error = Null, pending = False\<rparr>) \<or>
         (\<exists>message. useProducts events =
            \<lparr>products = [], loading = False, error = Str message, pending = False\<rparr>)"
    using snoc by auto
  have step: "useProducts (events @ [ev]) = loader_step (useProducts events) ev"
    by (simp add: useProducts_def)
  show ?case
  proof (cases ev)
    case RunEffect
    with ev show ?thesis by simp
  next
    case (Resolved data)
    with IH show ?thesis unfolding step by auto
  next
    case (Rejected r)
    with ev obtain message where "r = Reason (Str message)" by blast
    with Rejected IH show ?thesis unfolding step by auto
  next
    case Cleanup
    with IH show ?thesis unfolding step by auto
  qed
qed

text \<open>
  A reason without a string for its message. A request that rejects with \<^verbatim>\<open>null\<close> leaves
  the hook loading, with nothing in flight; one that rejects with a reason that has no
  message (a string, say) ends with \<^verbatim>\<open>error\<close> \<^verbatim>\<open>undefined\<close>.
\<close>

lemma rejection_without_message:
  "useProducts [Rejected Nullish] =
     \<lparr>products = [], loading = True, error = Null, pending = False\<rparr>"
  "useProducts [Rejected (Reason Undefined)] =
     \<lparr>products = [], loading = False, error = Undefined, pending = False\<rparr>"
  by (simp_all add: useProducts_def initial_def)

text \<open>
  C9 fails on the code: a run of the effect sets \<^verbatim>\<open>loading\<close> and leaves \<^verbatim>\<open>error\<close> and
  \<^verbatim>\<open>products\<close> as the run before left them. The request of the mounted hook rejects with
  \<^verbatim>\<open>new Error('Network error')\<close>, the \<^verbatim>\<open>api\<close> changes and the effect runs again: the hook
  shows \<^verbatim>\<open>loading\<close> and still the message, which is not the state it was mounted in. The
  second request resolves with one product: the hook has the product and the message of
  the first run, and is neither loading nor ready nor failed. In the other order (the
  first request resolves, the second rejects) the hook has the message and the products
  of the first run, and is none of the three either.
\<close>

theorem loader_restart_stale:
  "useProducts [Rejected (Reason (Str ''Network error'')), RunEffect] =
     \<lparr>products = [], loading = True, error = Str ''Network error'', pending = True\<rparr> \<and>
   useProducts [Rejected (Reason (Str ''Network error'')), RunEffect] \<noteq> useProducts [] \<and>
   useProducts [Rejected (Reason (Str ''Network error'')), RunEffect, Resolved [product1]] =
     \<lparr>products = [product1], loading = False, error = Str ''Network error'',
      pending = False\<rparr> \<and>
   \<not> is_loading
       (useProducts [Rejected (Reason (Str ''Network error'')), RunEffect, Resolved [product1]]) \<and>
   \<not> is_ready
       (useProducts [Rejected (Reason (Str ''Network error'')), RunEffect, Resolved [product1]]) \<and>
   \<not> is_failed
       (useProducts [Rejected (Reason (Str ''Network error'')), RunEffect, Resolved [product1]]) \<and>
   useProducts [Resolved [product1], RunEffect, Rejected (Reason (Str ''Network error''))] =
     \<lparr>products = [product1], loading = False, error = Str ''Network error'',
      pending = False\<rparr>"
  by (simp add: useProducts_def initial_def is_loading_def is_ready_def is_failed_def)

end
